theory Spec2Isabelle
  imports Complex_Main "HOL-Library.AList" "HOL-Library.Multiset"
begin

section \<open>Strings\<close>

text \<open>
  JavaScript strings are modelled as \<^typ>\<open>string\<close>: lists of code units, here the 8-bit
  ones. The operations below are the ones of \<open>String.prototype\<close> that the sources use.
\<close>

abbreviation NL :: char where
  "NL \<equiv> CHR 0x0A"

text \<open>The characters matched by \<open>\s\<close> and removed by \<open>trim()\<close> (below code unit 256).\<close>

definition isWhiteSpace :: "char \<Rightarrow> bool" where
  "isWhiteSpace c = (c \<in> set [CHR 0x09, CHR 0x0A, CHR 0x0B, CHR 0x0C, CHR 0x0D, CHR 0x20, CHR 0xA0])"

text \<open>\<open>s.trim()\<close>\<close>

definition trim :: "string \<Rightarrow> string" where
  "trim s = rev (dropWhile isWhiteSpace (rev (dropWhile isWhiteSpace s)))"

text \<open>\<open>s.split("\n")\<close>: never empty, one more piece than there are newlines.\<close>

fun splitLines :: "string \<Rightarrow> string list" where
  "splitLines [] = [[]]"
| "splitLines (c # cs) =
     (if c = NL then [] # splitLines cs
      else (case splitLines cs of l # ls \<Rightarrow> (c # l) # ls | [] \<Rightarrow> [[c]]))"

text \<open>\<open>lines.join(sep)\<close>\<close>

fun joinWith :: "string \<Rightarrow> string list \<Rightarrow> string" where
  "joinWith sep [] = []"
| "joinWith sep [l] = l"
| "joinWith sep (l # ls) = l @ sep @ joinWith sep ls"

text \<open>\<open>s.lastIndexOf("\n")\<close>, for a string that has a newline.\<close>

definition lastIndexOfNL :: "string \<Rightarrow> nat" where
  "lastIndexOfNL s = length s - Suc (length (takeWhile (\<lambda>c. c \<noteq> NL) (rev s)))"

section \<open>Syntactic helpers (syntax.ts)\<close>

subsection \<open>closeBrackets\<close>

text \<open>The map \<open>closing\<close> from opening brackets to closing brackets, and the set \<open>closers\<close>.\<close>

definition closing :: "char \<Rightarrow> char option" where
  "closing c =
     (if c = CHR ''('' then Some (CHR '')'')
      else if c = CHR ''{'' then Some (CHR ''}'')
      else if c = CHR ''['' then Some (CHR '']'')
      else None)"

definition closers :: "char set" where
  "closers = {CHR '')'', CHR ''}'', CHR '']''}"

text \<open>
  \<open>code.indexOf("\n", i)\<close> followed by \<open>i = nl\<close> and the loop's \<open>++i\<close>: the text after the
  next newline, \<open>None\<close> when there is no newline (the loop breaks).
\<close>

fun skipLineComment :: "string \<Rightarrow> string option" where
  "skipLineComment [] = None"
| "skipLineComment (c # cs) = (if c = NL then Some cs else skipLineComment cs)"

text \<open>\<open>code[i] === "/" && code[i + 1] === "/"\<close>, at the head of the remaining text.\<close>

definition lineCommentAhead :: "char \<Rightarrow> string \<Rightarrow> bool" where
  "lineCommentAhead c cs = (c = CHR ''/'' \<and> (case cs of [] \<Rightarrow> False | d # _ \<Rightarrow> d = CHR ''/''))"

text \<open>
  The \<open>for\<close> loop of \<open>closeBrackets\<close>. The second argument is \<open>brackets\<close>, all outstanding
  closing brackets in order. \<open>None\<close> is the \<open>return undefined\<close> inside the loop; \<open>Some\<close>
  carries the value of \<open>brackets\<close> when the loop ends or breaks.
\<close>

function scanBrackets :: "string \<Rightarrow> string \<Rightarrow> string option" where
  "scanBrackets [] brackets = Some brackets"
| "scanBrackets (c # cs) brackets =
     (if lineCommentAhead c cs then
        (case skipLineComment (c # cs) of
           None \<Rightarrow> Some brackets
         | Some rest \<Rightarrow> scanBrackets rest brackets)
      else
        (case closing c of
           Some cl \<Rightarrow> scanBrackets cs (cl # brackets)
         | None \<Rightarrow>
             if c \<in> closers then
               (case brackets of
                  [] \<Rightarrow> None
                | b # bs \<Rightarrow> if b = c then scanBrackets cs bs else None)
             else scanBrackets cs brackets))"
  by pat_completeness auto
termination
proof -
  have shorter: "skipLineComment xs = Some rest \<Longrightarrow> length rest < length xs" for xs rest
    by (induction xs) (auto split: if_splits)
  show ?thesis
    by (relation "measure (\<lambda>(code, brackets). length code)")
       (auto simp del: skipLineComment.simps dest: shorter)
qed

text \<open>
  \<open>closeBrackets\<close>. The parser \<open>espree.parse\<close> is outside the repository: it is the
  parameter \<open>parses\<close>, true where parsing does not throw. Of the result
  \<open>{source, ast}\<close> the model keeps \<open>source\<close>.
\<close>

definition closeBrackets :: "(string \<Rightarrow> bool) \<Rightarrow> string \<Rightarrow> string option" where
  "closeBrackets parses code =
     (case scanBrackets code [] of
        None \<Rightarrow> None
      | Some brackets \<Rightarrow> if parses (code @ brackets) then Some (code @ brackets) else None)"

subsection \<open>trimCompletion\<close>

text \<open>\<open>completion.match(/[;})]\s*$/)\<close>\<close>

definition endsComplete :: "string \<Rightarrow> bool" where
  "endsComplete s =
     (case dropWhile isWhiteSpace (rev s) of
        [] \<Rightarrow> False
      | c # _ \<Rightarrow> c = CHR '';'' \<or> c = CHR ''}'' \<or> c = CHR '')'')"

text \<open>
  The bracket loop of \<open>trimCompletion\<close>: the text kept, which is \<open>completion.slice(0, i)\<close>
  at the first closing bracket met with an empty stack and the whole text otherwise.
\<close>

fun cutUnopened :: "string \<Rightarrow> char list \<Rightarrow> string" where
  "cutUnopened [] stack = []"
| "cutUnopened (c # cs) stack =
     (if c = CHR ''{'' \<or> c = CHR ''('' then c # cutUnopened cs (c # stack)
      else if c = CHR ''}'' \<or> c = CHR '')'' then
        (case stack of [] \<Rightarrow> [] | _ # stack' \<Rightarrow> c # cutUnopened cs stack')
      else c # cutUnopened cs stack)"

definition trimCompletion :: "string \<Rightarrow> string" where
  "trimCompletion completion =
     (let endOfLastLine = (if NL \<in> set completion then lastIndexOfNL completion else 0);
          completion1 = (if \<not> endsComplete completion then take endOfLastLine completion
                         else completion);
          completion2 = cutUnopened completion1 []
      in trim completion2)"

subsection \<open>commentOut and trimAndCombineDocComment\<close>

definition commentOut :: "string \<Rightarrow> string" where
  "commentOut code =
     (let lines = splitLines code;
          lines' = (if last lines = [] then butlast lines else lines)
      in concat (map (\<lambda>line. ''// '' @ line @ [NL]) lines'))"

text \<open>\<open>line.replace("*", "")\<close>: the first star is removed.\<close>

fun removeFirstStar :: "string \<Rightarrow> string" where
  "removeFirstStar [] = []"
| "removeFirstStar (c # cs) = (if c = CHR ''*'' then cs else c # removeFirstStar cs)"

definition trimAndCombineDocComment :: "string \<Rightarrow> string" where
  "trimAndCombineDocComment docComment =
     commentOut (joinWith [NL]
       (filter (\<lambda>line. line \<noteq> [])
          (map (\<lambda>line. trim (removeFirstStar line)) (splitLines docComment))))"


section \<open>Data model\<close>

subsection \<open>API functions (exploreAPI.ts)\<close>

record FunctionDescriptor =
  signature :: string
  isAsync :: bool
  implementation :: string
  isConstructor :: bool
  docComment :: "string option"

record APIFunction =
  accessPath :: string
  descriptor :: FunctionDescriptor
  packageName :: string

text \<open>\<open>accessPath.split(".").pop()\<close>\<close>

definition functionName :: "APIFunction \<Rightarrow> string" where
  "functionName f = rev (takeWhile (\<lambda>c. c \<noteq> CHR ''.'') (rev (accessPath f)))"

text \<open>The getter \<open>APIFunction.signature\<close>.\<close>

definition fullSignature :: "APIFunction \<Rightarrow> string" where
  "fullSignature f =
     (if isConstructor (descriptor f) then ''class '' else []) @
     accessPath f @ signature (descriptor f) @
     (if isAsync (descriptor f) then '' async'' else [])"

text \<open>\<open>pkgName.replace(/[^a-zA-Z0-9_$]/g, "_")\<close>\<close>

definition isIdentChar :: "char \<Rightarrow> bool" where
  "isIdentChar c =
     (let n = (of_char c :: nat)
      in (97 \<le> n \<and> n \<le> 122) \<or> (65 \<le> n \<and> n \<le> 90) \<or> (48 \<le> n \<and> n \<le> 57) \<or>
         c = CHR ''_'' \<or> c = CHR ''$'')"

definition sanitizePackageName :: "string \<Rightarrow> string" where
  "sanitizePackageName pkgName = map (\<lambda>c. if isIdentChar c then c else CHR ''_'') pkgName"

subsection \<open>Test outcomes (report.ts)\<close>

datatype TestStatus = Passed | Failed | Pending | Other

record ITestFailureInfo =
  message :: string
  code :: "string option"
  stack :: "string option"

datatype TestOutcome =
    PASSED "string option" "string option"
  | PENDING
  | OTHER
  | FAILED ITestFailureInfo

fun status :: "TestOutcome \<Rightarrow> TestStatus" where
  "status (PASSED coverageReport coverageData) = Passed"
| "status PENDING = Pending"
| "status OTHER = Other"
| "status (FAILED err) = Failed"

subsection \<open>Prompts (promptCrafting.ts)\<close>

text \<open>
  Prompts are objects: the collector keys a map by them, provenance records and test
  infos refer to them, and \<open>withProvenance\<close> changes them in place. They live in a heap,
  a list of objects, and a reference is an index into it.
\<close>

type_synonym ref = nat

record PromptOptions =
  includeSnippets :: bool
  includeDocComment :: bool
  includeFunctionBody :: bool

definition defaultPromptOptions :: PromptOptions where
  "defaultPromptOptions =
     \<lparr>includeSnippets = False, includeDocComment = False, includeFunctionBody = False\<rparr>"

record PromptProvenance =
  originalPrompt :: ref
  testId :: nat
  refiner :: string

text \<open>
  The class \<open>Prompt\<close> and its subclass \<open>RetryPrompt\<close>: \<open>retry\<close> is \<open>None\<close> for a plain
  prompt and holds the fields \<open>(body, err)\<close> of a retry prompt. The strings the
  constructor derives from \<open>fun\<close> and \<open>options\<close> are the functions below.
\<close>

record Prompt =
  apiFunction :: APIFunction
  usageSnippets :: "string list"
  options :: PromptOptions
  retry :: "(string \<times> string) option"
  provenance :: "PromptProvenance list"

definition newPrompt :: "APIFunction \<Rightarrow> string list \<Rightarrow> PromptOptions \<Rightarrow> Prompt" where
  "newPrompt f snippets opts =
     \<lparr>apiFunction = f, usageSnippets = snippets, options = opts, retry = None,
      provenance = []\<rparr>"

definition newRetryPrompt :: "Prompt \<Rightarrow> string \<Rightarrow> string \<Rightarrow> Prompt" where
  "newRetryPrompt prev body err =
     \<lparr>apiFunction = apiFunction prev, usageSnippets = usageSnippets prev,
      options = options prev, retry = Some (body, err), provenance = []\<rparr>"

definition isRetryPrompt :: "Prompt \<Rightarrow> bool" where
  "isRetryPrompt p = (retry p \<noteq> None)"

definition withProvenance :: "PromptProvenance list \<Rightarrow> Prompt \<Rightarrow> Prompt" where
  "withProvenance provenanceInfos p = p\<lparr>provenance := provenance p @ provenanceInfos\<rparr>"

definition functionHasDocComment :: "Prompt \<Rightarrow> bool" where
  "functionHasDocComment p = (docComment (descriptor (apiFunction p)) \<noteq> None)"

text \<open>
  The template tag \<open>dedent\<close>, of the library \<open>dedent\<close> in the version 0.7.0 that
  \<open>package.json\<close> asks for. The tag first puts the interpolated values between the raw
  pieces of the template; \<open>dedent\<close> below is what it does to that text. It looks for the
  smallest indentation among the lines that start with white space followed by
  something else (\<open>/^(\s+)\S+/\<close>), cuts that many characters from every line that starts
  with a blank, trims the text, and replaces each backslash followed by \<open>n\<close> by a
  newline.
\<close>

definition lineIndent :: "string \<Rightarrow> nat option" where
  "lineIndent l =
     (let ws = takeWhile isWhiteSpace l
      in if ws \<noteq> [] \<and> length ws < length l then Some (length ws) else None)"

definition minIndent :: "string list \<Rightarrow> nat option" where
  "minIndent ls =
     (case List.map_filter lineIndent ls of
        [] \<Rightarrow> None
      | indent # indents \<Rightarrow> Some (foldl min indent indents))"

fun replaceEscapedNL :: "string \<Rightarrow> string" where
  "replaceEscapedNL (c # d # s) =
     (if c = CHR 0x5C \<and> d = CHR ''n'' then NL # replaceEscapedNL s
      else c # replaceEscapedNL (d # s))"
| "replaceEscapedNL s = s"

definition dedent :: "string \<Rightarrow> string" where
  "dedent interpolated =
     (let result =
        (case minIndent (splitLines interpolated) of
           None \<Rightarrow> interpolated
         | Some mindent \<Rightarrow>
             joinWith [NL]
               (map (\<lambda>l. if take 1 l = '' '' then drop mindent l else l) (splitLines interpolated)))
      in replaceEscapedNL (trim result))"

text \<open>
  The field \<open>imports\<close>: the template of the constructor, its lines indented by twelve
  blanks and its last piece ending with a backslash and \<open>n\<close>, with the sanitized and the
  plain package name put in, handed to \<open>dedent\<close>.
\<close>

definition importsTemplate :: "Prompt \<Rightarrow> string" where
  "importsTemplate p =
     [NL] @ replicate 12 (CHR '' '') @
     ''let mocha = require('' @ [CHR 0x27] @ ''mocha'' @ [CHR 0x27] @ '');'' @ [NL] @
     replicate 12 (CHR '' '') @
     ''let assert = require('' @ [CHR 0x27] @ ''assert'' @ [CHR 0x27] @ '');'' @ [NL] @
     replicate 12 (CHR '' '') @
     ''let '' @ sanitizePackageName (packageName (apiFunction p)) @ '' = require('' @
       [CHR 0x27] @ packageName (apiFunction p) @ [CHR 0x27] @ '');'' @ [CHR 0x5C, CHR ''n'']"

definition importsHeader :: "Prompt \<Rightarrow> string" where
  "importsHeader p = dedent (importsTemplate p)"

definition signatureSection :: "Prompt \<Rightarrow> string" where
  "signatureSection p = commentOut (fullSignature (apiFunction p))"

definition functionBody :: "Prompt \<Rightarrow> string" where
  "functionBody p =
     (if includeFunctionBody (options p)
      then commentOut (implementation (descriptor (apiFunction p))) else [])"

definition suiteHeader :: "Prompt \<Rightarrow> string" where
  "suiteHeader p =
     ''describe('' @ [CHR 0x27] @ ''test '' @
     sanitizePackageName (packageName (apiFunction p)) @ [CHR 0x27] @
     '', function() {'' @ [NL]"

definition testHeader :: "Prompt \<Rightarrow> string" where
  "testHeader p =
     ''    it('' @ [CHR 0x27] @ ''test '' @ accessPath (apiFunction p) @ [CHR 0x27] @
     '', function(done) {'' @ [NL]"

definition docCommentSection :: "Prompt \<Rightarrow> string" where
  "docCommentSection p =
     (if includeDocComment (options p)
      then trimAndCombineDocComment
             (case docComment (descriptor (apiFunction p)) of Some d \<Rightarrow> d | None \<Rightarrow> [])
      else [])"

text \<open>Decimal digits of a number, as a template literal prints it.\<close>

function showNat :: "nat \<Rightarrow> string" where
  "showNat n =
     (if n < 10 then [char_of (48 + n)] else showNat (n div 10) @ [char_of (48 + n mod 10)])"
  by pat_completeness auto
termination
  by (relation "measure id") auto

text \<open>The \<open>map\<close> over the snippets with their indices, from index \<open>i\<close> on.\<close>

fun usageSnippetsFrom :: "nat \<Rightarrow> string list \<Rightarrow> string" where
  "usageSnippetsFrom i [] = []"
| "usageSnippetsFrom i (snippet # snippets) =
     (''// usage #'' @ showNat (i + 1) @ [NL] @
      concat (map (\<lambda>line. ''// '' @ line @ [NL]) (splitLines snippet))) @
     usageSnippetsFrom (i + 1) snippets"

definition assembleUsageSnippets :: "Prompt \<Rightarrow> string" where
  "assembleUsageSnippets p =
     (if \<not> includeSnippets (options p) then [] else usageSnippetsFrom 0 (usageSnippets p))"

text \<open>\<open>Prompt.assemble\<close>, which \<open>RetryPrompt.assemble\<close> calls as \<open>super.assemble()\<close>.\<close>

definition assemblePrompt :: "Prompt \<Rightarrow> string" where
  "assemblePrompt p =
     importsHeader p @ assembleUsageSnippets p @ docCommentSection p @ signatureSection p @
     functionBody p @ suiteHeader p @ testHeader p"

text \<open>
  \<open>source.replace(/\}\)\}\)$/, replacement)\<close>: a text that ends with the four closing
  brackets gets them replaced.
\<close>

definition replaceClosers :: "string \<Rightarrow> string \<Rightarrow> string" where
  "replaceClosers replacement source =
     (if 4 \<le> length source \<and> drop (length source - 4) source = ''})})''
      then take (length source - 4) source @ replacement else source)"

definition retryTrailer :: "string \<Rightarrow> string" where
  "retryTrailer err =
     ''    // the test above fails with the following error:'' @ [NL] @
     ''    //   '' @ err @ [NL] @
     ''    // fixed test:'' @ [NL]"

text \<open>\<open>RetryPrompt.assemble\<close>\<close>

definition assembleRetry :: "(string \<Rightarrow> bool) \<Rightarrow> Prompt \<Rightarrow> string \<Rightarrow> string \<Rightarrow> string" where
  "assembleRetry parses p body err =
     (let rawFailingTest = assemblePrompt p @ body @ [NL];
          completedFailingTest = closeBrackets parses rawFailingTest;
          failingTest =
            (case completedFailingTest of
               Some source \<Rightarrow> replaceClosers (''    })'' @ [NL]) source
             | None \<Rightarrow> rawFailingTest @ ''    })'' @ [NL])
      in failingTest @ retryTrailer err @ testHeader p)"

text \<open>\<open>prompt.assemble()\<close>, dispatched on the class of the object.\<close>

definition assemble :: "(string \<Rightarrow> bool) \<Rightarrow> Prompt \<Rightarrow> string" where
  "assemble parses p =
     (case retry p of
        None \<Rightarrow> assemblePrompt p
      | Some (body, err) \<Rightarrow> assembleRetry parses p body err)"

text \<open>\<open>body.replace(/^(?=\S)/, " ".repeat(8))\<close>\<close>

definition indentFirstLine :: "string \<Rightarrow> string" where
  "indentFirstLine body =
     (case body of
        [] \<Rightarrow> []
      | c # _ \<Rightarrow> if isWhiteSpace c then body else replicate 8 (CHR '' '') @ body)"

definition stubHeaders :: string where
  "stubHeaders =
     ''describe('' @ [CHR 0x27] @ ''test suite'' @ [CHR 0x27] @ '', function() {'' @ [NL] @
     ''    it('' @ [CHR 0x27] @ ''test case'' @ [CHR 0x27] @ '', function(done) {'' @ [NL]"

text \<open>\<open>Prompt.completeTest\<close>; \<open>None\<close> is \<open>undefined\<close>.\<close>

definition completeTest :: "(string \<Rightarrow> bool) \<Rightarrow> Prompt \<Rightarrow> string \<Rightarrow> bool \<Rightarrow> string option" where
  "completeTest parses p body stubOutHeaders =
     (let fixed = closeBrackets parses
            (importsHeader p @
             (if stubOutHeaders then stubHeaders else suiteHeader p @ testHeader p) @
             indentFirstLine body @ [NL])
      in map_option (replaceClosers (''    })'' @ [NL] @ ''})'')) fixed)"

subsection \<open>Refiners\<close>

datatype Refiner = SnippetIncluder | RetryWithError | DocCommentIncluder | FunctionBodyIncluder

fun name :: "Refiner \<Rightarrow> string" where
  "name SnippetIncluder = ''SnippetIncluder''"
| "name RetryWithError = ''RetryWithError''"
| "name DocCommentIncluder = ''DocCommentIncluder''"
| "name FunctionBodyIncluder = ''FunctionBodyIncluder''"

text \<open>
  \<open>refiner.refine(original, completion, outcome)\<close>: the new prompt objects, before they
  get their provenance.
\<close>

fun refine :: "Refiner \<Rightarrow> Prompt \<Rightarrow> string \<Rightarrow> TestOutcome \<Rightarrow> Prompt list" where
  "refine SnippetIncluder original completion outcome =
     (if \<not> includeSnippets (options original) \<and> length (usageSnippets original) > 0
      then [newPrompt (apiFunction original) (usageSnippets original)
              ((options original)\<lparr>includeSnippets := True\<rparr>)]
      else [])"
| "refine DocCommentIncluder original completion outcome =
     (if \<not> includeDocComment (options original) \<and> functionHasDocComment original
      then [newPrompt (apiFunction original) (usageSnippets original)
              ((options original)\<lparr>includeDocComment := True\<rparr>)]
      else [])"
| "refine RetryWithError original completion outcome =
     (case outcome of
        FAILED err \<Rightarrow>
          if \<not> isRetryPrompt original
          then [newRetryPrompt original completion (message err)] else []
      | _ \<Rightarrow> [])"
| "refine FunctionBodyIncluder original completion outcome =
     (if \<not> includeFunctionBody (options original) \<and>
         implementation (descriptor (apiFunction original)) \<noteq> []
      then [newPrompt (apiFunction original) (usageSnippets original)
              ((options original)\<lparr>includeFunctionBody := True\<rparr>)]
      else [])"

text \<open>The field \<open>TestGenerator.refiners\<close>.\<close>

definition refiners :: "Refiner list" where
  "refiners = [SnippetIncluder, RetryWithError, DocCommentIncluder, FunctionBodyIncluder]"


section \<open>Test collector (testResultCollector.ts)\<close>

record ITestInfo =
  id_T :: nat
  testName :: string
  outcome :: TestOutcome
  testSource :: string
  prompts_T :: "ref list"
  api :: string

record IPromptInfo =
  prompt_P :: ref
  id_P :: nat
  file_P :: string
  temperature :: real
  completions_P :: "string list"

text \<open>
  The state the engine works on: the heap of prompt objects, the three fields of
  \<open>BaseTestResultCollector\<close>, and the requests made so far to the completion model and
  to the validator, which are outside the repository. A JavaScript \<open>Map\<close> is an
  association list in insertion order; \<open>Map.set\<close> is \<^const>\<open>AList.update\<close>, which replaces
  the value of a key in place and puts a new key at the end. A test info object is held
  by the map \<open>tests\<close> under its own source, and it is changed there.
\<close>

record 'cov Engine =
  heap :: "Prompt list"
  tests :: "(string \<times> ITestInfo) list"
  prompts :: "(ref \<times> IPromptInfo) list"
  coverageSummary :: 'cov
  modelLog :: "(string \<times> real) list"
  validatorLog :: "(string \<times> string) list"

definition recordTestInfo ::
  "string \<Rightarrow> ref \<Rightarrow> string \<Rightarrow> 'cov Engine \<Rightarrow> ITestInfo \<times> 'cov Engine" where
  "recordTestInfo source prompt apiName st =
     (case map_of (tests st) source of
        Some testInfo \<Rightarrow>
          (let testInfo' = testInfo\<lparr>prompts_T := prompts_T testInfo @ [prompt]\<rparr>
           in (testInfo', st\<lparr>tests := AList.update source testInfo' (tests st)\<rparr>))
      | None \<Rightarrow>
          (let newId = length (tests st);
               testInfo = \<lparr>id_T = newId, testName = ''test_'' @ showNat newId @ ''.js'',
                           outcome = OTHER, testSource = source, prompts_T = [prompt],
                           api = apiName\<rparr>
           in (testInfo, st\<lparr>tests := AList.update source testInfo (tests st)\<rparr>)))"

text \<open>
  \<open>recordTestResult\<close> only assigns \<open>test.outcome\<close>. The object assigned to is the one the
  map holds when the map holds this very test info under its source; then the map
  shows the new outcome. Otherwise the map stays as it is.
\<close>

definition recordTestResult ::
  "ITestInfo \<Rightarrow> real \<Rightarrow> TestOutcome \<Rightarrow> 'cov Engine \<Rightarrow> ITestInfo \<times> 'cov Engine" where
  "recordTestResult test T result st =
     (let test' = test\<lparr>outcome := result\<rparr>
      in (test',
          if map_of (tests st) (testSource test) = Some test
          then st\<lparr>tests := AList.update (testSource test) test' (tests st)\<rparr>
          else st))"

definition recordPromptInfo ::
  "ref \<Rightarrow> real \<Rightarrow> string list \<Rightarrow> 'cov Engine \<Rightarrow> 'cov Engine" where
  "recordPromptInfo prompt T completions st =
     (let newId = length (prompts st);
          fileName = ''prompt_'' @ showNat newId @ ''.js''
      in st\<lparr>prompts := AList.update prompt
                 \<lparr>prompt_P = prompt, id_P = newId, file_P = fileName, temperature = T,
                  completions_P = completions\<rparr> (prompts st)\<rparr>)"

definition recordCoverageInfo :: "'cov \<Rightarrow> 'cov Engine \<Rightarrow> 'cov Engine" where
  "recordCoverageInfo summary st = st\<lparr>coverageSummary := summary\<rparr>"

text \<open>A fresh collector, with no prompt object allocated and no request made.\<close>

definition emptyEngine :: "'cov \<Rightarrow> 'cov Engine" where
  "emptyEngine emptyCoverageSummary =
     \<lparr>heap = [], tests = [], prompts = [], coverageSummary = emptyCoverageSummary,
      modelLog = [], validatorLog = []\<rparr>"

section \<open>Test generator (generateTests.ts)\<close>

text \<open>
  The fields of \<open>TestGenerator\<close>. The completion model and the validator are outside the
  repository and may keep state: each is a function of the requests made to it so far
  and of the new request, and each is taken to answer every request (a model or a
  validator that throws is not modelled). \<open>completions\<close> gives the set of completions
  in iteration order. \<open>parses\<close> is the parser used by \<open>closeBrackets\<close>.
\<close>

record TestGenerator =
  temperatures :: "real list"
  snippetMap :: "string \<Rightarrow> string list option"
  completions :: "(string \<times> real) list \<Rightarrow> string \<Rightarrow> real \<Rightarrow> string list"
  validateTest :: "(string \<times> string) list \<Rightarrow> string \<Rightarrow> string \<Rightarrow> TestOutcome"
  parses :: "string \<Rightarrow> bool"

definition validateCompletion ::
  "TestGenerator \<Rightarrow> ref \<Rightarrow> string \<Rightarrow> real \<Rightarrow> 'cov Engine \<Rightarrow> ITestInfo \<times> 'cov Engine" where
  "validateCompletion gen prompt completion T st =
     (let p = heap st ! prompt;
          source = completeTest (parses gen) p completion True;
          (testInfo, st1) =
            recordTestInfo (case source of Some src \<Rightarrow> src | None \<Rightarrow> completion)
              prompt (accessPath (apiFunction p)) st
      in if length (prompts_T testInfo) > 1 then (testInfo, st1)
         else if completion = [] then
           recordTestResult testInfo T
             (FAILED \<lparr>message = ''Empty test'', code = None, stack = None\<rparr>) st1
         else if source \<noteq> None then
           recordTestResult testInfo T
             (validateTest gen (validatorLog st1) (testName testInfo) (testSource testInfo))
             (st1\<lparr>validatorLog :=
                    validatorLog st1 @ [(testName testInfo, testSource testInfo)]\<rparr>)
         else
           recordTestResult testInfo T
             (FAILED \<lparr>message = ''Invalid syntax'', code = None, stack = None\<rparr>) st1)"

text \<open>
  The body of the inner loop of \<open>refinePrompts\<close>: the refined prompt becomes an object
  of the heap, gets its provenance, and is pushed on the worklist.
\<close>

definition pushRefined ::
  "ref \<Rightarrow> nat \<Rightarrow> Refiner \<Rightarrow> ref list \<times> 'cov Engine \<Rightarrow> Prompt \<Rightarrow> ref list \<times> 'cov Engine" where
  "pushRefined prompt tid r acc refinedPrompt =
     (case acc of (worklist, st) \<Rightarrow>
        (let prov = \<lparr>originalPrompt = prompt, testId = tid, refiner = name r\<rparr>
         in (worklist @ [length (heap st)],
             st\<lparr>heap := heap st @ [withProvenance [prov] refinedPrompt]\<rparr>)))"

definition refineWith ::
  "ref \<Rightarrow> string \<Rightarrow> ITestInfo \<Rightarrow> ref list \<times> 'cov Engine \<Rightarrow> Refiner \<Rightarrow> ref list \<times> 'cov Engine" where
  "refineWith prompt completion testInfo acc r =
     foldl (pushRefined prompt (id_T testInfo) r) acc
       (refine r (heap (snd acc) ! prompt) completion (outcome testInfo))"

definition refinePrompts ::
  "ref \<Rightarrow> string \<Rightarrow> ITestInfo \<Rightarrow> ref list \<times> 'cov Engine \<Rightarrow> ref list \<times> 'cov Engine" where
  "refinePrompts prompt completion testInfo acc =
     foldl (refineWith prompt completion testInfo) acc refiners"

text \<open>
  The state of one run of the \<open>while\<close> loop: the worklist, \<open>generatedPassingTests\<close>,
  the map \<open>generatedPrompts\<close> and the engine.
\<close>

type_synonym 'cov loopState = "ref list \<times> bool \<times> (string \<times> ref) list \<times> 'cov Engine"

text \<open>The body of the \<open>for\<close> loop over the completions.\<close>

definition completionStep ::
  "TestGenerator \<Rightarrow> ref \<Rightarrow> real \<Rightarrow> bool \<times> ref list \<times> 'cov Engine \<Rightarrow> string
   \<Rightarrow> bool \<times> ref list \<times> 'cov Engine" where
  "completionStep gen prompt T acc completion =
     (case acc of (generatedPassingTests, worklist, st) \<Rightarrow>
        (let (testInfo, st1) = validateCompletion gen prompt completion T st;
             passing = (generatedPassingTests \<or> status (outcome testInfo) = Passed);
             (worklist', st2) = refinePrompts prompt completion testInfo (worklist, st1)
         in (passing, worklist', st2)))"

text \<open>The body of the \<open>while\<close> loop, for a worklist that is not empty.\<close>

definition loopBody :: "TestGenerator \<Rightarrow> real \<Rightarrow> 'cov loopState \<Rightarrow> 'cov loopState" where
  "loopBody gen T ls =
     (case ls of (worklist, generatedPassingTests, generatedPrompts, st) \<Rightarrow>
        (let prompt = last worklist;
             worklist1 = butlast worklist;
             assembledPrompt = assemble (parses gen) (heap st ! prompt)
         in case map_of generatedPrompts assembledPrompt of
              Some previousPrompt \<Rightarrow>
                (worklist1, generatedPassingTests, generatedPrompts,
                 st\<lparr>heap := (heap st)[previousPrompt :=
                        withProvenance (provenance (heap st ! prompt))
                          (heap st ! previousPrompt)]\<rparr>)
            | None \<Rightarrow>
                (let generatedPrompts' = AList.update assembledPrompt prompt generatedPrompts;
                     cs = completions gen (modelLog st) assembledPrompt T;
                     st1 = st\<lparr>modelLog := modelLog st @ [(assembledPrompt, T)]\<rparr>;
                     (passing, worklist', st2) =
                       foldl (completionStep gen prompt T)
                         (generatedPassingTests, worklist1, st1) cs
                 in (worklist', passing, generatedPrompts',
                     recordPromptInfo prompt T cs st2))))"

partial_function (option) worklistLoop ::
  "TestGenerator \<Rightarrow> real \<Rightarrow> 'cov loopState \<Rightarrow> (bool \<times> 'cov Engine) option" where
  "worklistLoop gen T ls =
     (case ls of (worklist, generatedPassingTests, generatedPrompts, st) \<Rightarrow>
        if worklist = [] then Some (generatedPassingTests, st)
        else worklistLoop gen T (loopBody gen T ls))"

declare worklistLoop.simps [code]

text \<open>
  The body of the \<open>for\<close> loop over the temperatures, up to the end of the \<open>while\<close>
  loop: the initial prompt is allocated and the worklist is run.
\<close>

definition processTemperature ::
  "TestGenerator \<Rightarrow> APIFunction \<Rightarrow> real \<Rightarrow> 'cov Engine \<Rightarrow> (bool \<times> 'cov Engine) option" where
  "processTemperature gen f T st =
     (let snippets = (case snippetMap gen (functionName f) of Some sn \<Rightarrow> sn | None \<Rightarrow> []);
          initial = length (heap st);
          st0 = st\<lparr>heap := heap st @ [newPrompt f snippets defaultPromptOptions]\<rparr>
      in worklistLoop gen T ([initial], False, [], st0))"

fun temperatureLoop ::
  "TestGenerator \<Rightarrow> APIFunction \<Rightarrow> real list \<Rightarrow> 'cov Engine \<Rightarrow> 'cov Engine option" where
  "temperatureLoop gen f [] st = Some st"
| "temperatureLoop gen f (T # Ts) st =
     (case processTemperature gen f T st of
        None \<Rightarrow> None
      | Some (generatedPassingTests, st') \<Rightarrow>
          if generatedPassingTests then Some st' else temperatureLoop gen f Ts st')"

definition generateAndValidateTests ::
  "TestGenerator \<Rightarrow> APIFunction \<Rightarrow> 'cov Engine \<Rightarrow> 'cov Engine option" where
  "generateAndValidateTests gen f st = temperatureLoop gen f (temperatures gen) st"

section \<open>The driver (benchmark/run.ts)\<close>

text \<open>
  \<open>runExperiment\<close>. The clock \<open>performance.now()\<close> is the parameter \<open>now\<close>: \<open>now k\<close> is
  what the clock gives when \<open>runExperiment\<close> reads it for the \<open>k\<close>-th time, counting
  from \<open>0\<close>, and nothing is assumed of it. The first read is the one for the deadline;
  each test of the deadline in the loop is one more read, counted by \<open>reads\<close>.
  \<open>computeCoverageSummary\<close> is the validator's, a function of the tests it was given.
\<close>

fun experimentLoop ::
  "TestGenerator \<Rightarrow> (nat \<Rightarrow> real) \<Rightarrow> real \<Rightarrow> nat \<Rightarrow> APIFunction list \<Rightarrow> 'cov Engine
   \<Rightarrow> 'cov Engine option" where
  "experimentLoop gen now deadline reads [] st = Some st"
| "experimentLoop gen now deadline reads (f # workList) st =
     (if now reads > deadline then Some st
      else case generateAndValidateTests gen f st of
             None \<Rightarrow> None
           | Some st' \<Rightarrow> experimentLoop gen now deadline (Suc reads) workList st')"

definition runExperiment ::
  "APIFunction list \<Rightarrow> TestGenerator \<Rightarrow> (nat \<Rightarrow> real) \<Rightarrow>
   ((string \<times> string) list \<Rightarrow> 'cov) \<Rightarrow> real \<Rightarrow> 'cov Engine \<Rightarrow> 'cov Engine option" where
  "runExperiment functions gen now computeCoverageSummary timeLimit st =
     (let deadline = now 0 + timeLimit
      in case experimentLoop gen now deadline 1 functions st of
           None \<Rightarrow> None
         | Some st' \<Rightarrow> Some (recordCoverageInfo (computeCoverageSummary (validatorLog st')) st'))"
section \<open>Balanced text\<close>

text \<open>
  What it means for a text to be balanced, stated without the scan of \<open>closeBrackets\<close>
  and its stack of expected closing brackets. A line comment runs from \<open>//\<close> to the
  next newline, or to the end of the text; \<open>stripLineComments False s\<close> is the text
  outside the line comments (the flag says whether the text starts inside one).
\<close>

primrec stripLineComments :: "bool \<Rightarrow> string \<Rightarrow> string" where
  "stripLineComments inComment [] = []"
| "stripLineComments inComment (c # cs) =
     (if inComment then (if c = NL then stripLineComments False cs else stripLineComments True cs)
      else if c = CHR ''/'' \<and> take 1 cs = ''/'' then stripLineComments True cs
      else c # stripLineComments False cs)"

text \<open>The three kinds of brackets, each opening bracket with its closing bracket.\<close>

definition bracketPairs :: "(char \<times> char) list" where
  "bracketPairs = [(CHR ''('', CHR '')''), (CHR ''{'', CHR ''}''), (CHR ''['', CHR '']'')]"

definition isBracket :: "char \<Rightarrow> bool" where
  "isBracket c = (c \<in> fst ` set bracketPairs \<or> c \<in> snd ` set bracketPairs)"

text \<open>The brackets of a text that are outside its line comments, in order.\<close>

definition bracketsOf :: "string \<Rightarrow> string" where
  "bracketsOf s = filter isBracket (stripLineComments False s)"

text \<open>
  The well-nested sequences of brackets: the empty sequence, and every sequence that
  becomes well-nested when an opening bracket and the closing bracket of its kind
  right after it are taken out.
\<close>

inductive wellNested :: "string \<Rightarrow> bool" where
  empty: "wellNested []"
| pair: "wellNested (u @ v) \<Longrightarrow> (a, b) \<in> set bracketPairs \<Longrightarrow> wellNested (u @ a # b # v)"

text \<open>A text is balanced when its brackets outside line comments are well-nested.\<close>

definition balanced :: "string \<Rightarrow> bool" where
  "balanced s = wellNested (bracketsOf s)"


section \<open>Invariants of the collector and of the generation loop\<close>

text \<open>
  The map \<open>tests\<close>: every test info is stored under its own source, it has at least
  one prompt, and no key occurs twice.
\<close>

definition collector_ok :: "'cov Engine \<Rightarrow> bool" where
  "collector_ok st =
     (distinct (map fst (tests st)) \<and>
      (\<forall>entry\<in>set (tests st). testSource (snd entry) = fst entry \<and> prompts_T (snd entry) \<noteq> []))"

text \<open>The sources of the test infos the collector holds, in the order of the map.\<close>

definition testSources :: "'cov Engine \<Rightarrow> string list" where
  "testSources st = map (\<lambda>entry. testSource (snd entry)) (tests st)"

text \<open>Two engine states that differ at most in the heap.\<close>

definition sameCollector :: "'cov Engine \<Rightarrow> 'cov Engine \<Rightarrow> bool" where
  "sameCollector st st' =
     (tests st' = tests st \<and> prompts st' = prompts st \<and> modelLog st' = modelLog st \<and>
      validatorLog st' = validatorLog st \<and> coverageSummary st' = coverageSummary st)"

text \<open>
  A prompt object \<open>q\<close> that \<open>refinePrompts\<close> makes from the prompt \<open>p\<close> at reference \<open>a\<close>:
  the result of some refiner, with the one provenance record that names \<open>a\<close>.
\<close>

definition refinedFrom :: "ref \<Rightarrow> Prompt \<Rightarrow> Prompt \<Rightarrow> bool" where
  "refinedFrom a p q =
     (\<exists>r c result tid. \<exists>q0\<in>set (refine r p c result).
        q = withProvenance [\<lparr>originalPrompt = a, testId = tid, refiner = name r\<rparr>] q0)"

text \<open>
  What a run of \<open>refinePrompts\<close> for the prompt \<open>p\<close> at \<open>a\<close> does to the worklist and the
  engine: new objects at the end of the heap, their references at the end of the
  worklist, the prompt infos and the request log of the model as they were.
\<close>

definition grown :: "ref \<Rightarrow> Prompt \<Rightarrow> ref list \<times> 'cov Engine \<Rightarrow> ref list \<times> 'cov Engine \<Rightarrow> bool" where
  "grown a p acc acc' =
     (\<exists>news. heap (snd acc') = heap (snd acc) @ news \<and>
        fst acc' = fst acc @ [length (heap (snd acc))..<length (heap (snd acc)) + length news] \<and>
        (\<forall>q\<in>set news. refinedFrom a p q) \<and>
        prompts (snd acc') = prompts (snd acc) \<and> modelLog (snd acc') = modelLog (snd acc))"

text \<open>
  A number that every refiner lowers: twice the number of options not yet set, plus
  one for a prompt that is not a retry prompt.
\<close>

definition rank :: "Prompt \<Rightarrow> nat" where
  "rank p =
     2 * ((if includeSnippets (options p) then 0 else 1) +
          (if includeDocComment (options p) then 0 else 1) +
          (if includeFunctionBody (options p) then 0 else 1)) +
     (if isRetryPrompt p then 0 else 1)"

text \<open>
  Retry prompts in the heap: every provenance record of a retry prompt names an object
  of the heap that is not a retry prompt.
\<close>

definition retry_ok :: "Prompt list \<Rightarrow> bool" where
  "retry_ok h =
     (\<forall>a<length h. isRetryPrompt (h ! a) \<longrightarrow>
        (\<forall>pr\<in>set (provenance (h ! a)).
           originalPrompt pr < length h \<and> \<not> isRetryPrompt (h ! originalPrompt pr)))"

text \<open>
  The prompt infos: each is stored under the reference of its prompt, which is an
  object of the heap.
\<close>

definition prompts_ok :: "'cov Engine \<Rightarrow> bool" where
  "prompts_ok st =
     (\<forall>entry\<in>set (prompts st). fst entry < length (heap st) \<and> prompt_P (snd entry) = fst entry)"

text \<open>
  The worklist and the map \<open>generatedPrompts\<close> while the function \<open>f\<close> is processed: all
  references are objects of the heap and prompts for \<open>f\<close>, the worklist holds no
  reference twice and none that has a prompt info, and \<open>generatedPrompts\<close> maps the
  assembled text of a prompt to the prompt.
\<close>

definition loop_ok ::
  "TestGenerator \<Rightarrow> APIFunction \<Rightarrow> ref list \<Rightarrow> (string \<times> ref) list \<Rightarrow> 'cov Engine \<Rightarrow> bool" where
  "loop_ok gen f worklist generatedPrompts st =
     (distinct worklist \<and>
      (\<forall>a\<in>set worklist. a < length (heap st) \<and> apiFunction (heap st ! a) = f \<and>
         a \<notin> fst ` set (prompts st)) \<and>
      (\<forall>entry\<in>set generatedPrompts. snd entry < length (heap st) \<and>
         apiFunction (heap st ! snd entry) = f \<and>
         assemble (parses gen) (heap st ! snd entry) = fst entry))"

text \<open>The assembled texts of the prompts of the prompt infos, in the order of the map.\<close>

definition promptTexts :: "(string \<Rightarrow> bool) \<Rightarrow> 'cov Engine \<Rightarrow> string list" where
  "promptTexts parser st =
     map (\<lambda>entry. assemble parser (heap st ! prompt_P (snd entry))) (prompts st)"

text \<open>The prompts that have a provenance record naming themselves as the original.\<close>

definition selfProvenance :: "'cov Engine \<Rightarrow> ref list" where
  "selfProvenance st =
     filter (\<lambda>a. a \<in> set (map originalPrompt (provenance (heap st ! a)))) [0..<length (heap st)]"

text \<open>The statuses of the test infos, in the order of the map.\<close>

definition testStatuses :: "'cov Engine \<Rightarrow> TestStatus list" where
  "testStatuses st = map (\<lambda>entry. status (outcome (snd entry))) (tests st)"

text \<open>
  The states the engine can be in. \<open>reachable\<close> holds of the engine between two
  calls of \<open>generateAndValidateTests\<close>, \<open>inLoop\<close> of the state of the \<open>while\<close> loop each
  time its condition is tested. Any function and any temperature may come next, so
  every state of a run of \<open>generateAndValidateTests\<close> or \<open>runExperiment\<close> from a fresh
  collector is among them.
\<close>

inductive reachable :: "TestGenerator \<Rightarrow> 'cov Engine \<Rightarrow> bool"
  and inLoop :: "TestGenerator \<Rightarrow> APIFunction \<Rightarrow> real \<Rightarrow> 'cov loopState \<Rightarrow> bool"
  for gen :: TestGenerator
where
  fresh: "reachable gen (emptyEngine c)"
| coverage: "reachable gen st \<Longrightarrow> reachable gen (recordCoverageInfo c st)"
| enter: "reachable gen st \<Longrightarrow>
     inLoop gen f T
       ([length (heap st)], False, [],
        st\<lparr>heap := heap st @
           [newPrompt f (case snippetMap gen (functionName f) of Some sn \<Rightarrow> sn | None \<Rightarrow> [])
              defaultPromptOptions]\<rparr>)"
| iterate: "inLoop gen f T (wl, fl, gp, st) \<Longrightarrow> wl \<noteq> [] \<Longrightarrow>
     inLoop gen f T (loopBody gen T (wl, fl, gp, st))"
| leave: "inLoop gen f T ([], fl, gp, st) \<Longrightarrow> reachable gen st"

text \<open>The identifiers of the prompt infos, in the order of the map.\<close>

definition promptIds :: "'cov Engine \<Rightarrow> nat list" where
  "promptIds st = map (\<lambda>entry. id_P (snd entry)) (prompts st)"

text \<open>
  The prompt infos recorded since the map had \<open>n\<close> entries: their assembled texts are
  pairwise different, and each is a key of \<open>generatedPrompts\<close>.
\<close>

definition texts_ok ::
  "TestGenerator \<Rightarrow> nat \<Rightarrow> (string \<times> ref) list \<Rightarrow> 'cov Engine \<Rightarrow> bool" where
  "texts_ok gen n generatedPrompts st =
     (n \<le> length (prompts st) \<and>
      distinct (drop n (promptTexts (parses gen) st)) \<and>
      set (drop n (promptTexts (parses gen) st)) \<subseteq> fst ` set generatedPrompts)"

text \<open>
  The tests recorded since the map had \<open>n\<close> entries: if one of them has passed, the
  flag \<open>generatedPassingTests\<close> is set.
\<close>

definition passing_ok :: "nat \<Rightarrow> bool \<Rightarrow> 'cov Engine \<Rightarrow> bool" where
  "passing_ok n generatedPassingTests st =
     (collector_ok st \<and> n \<le> length (tests st) \<and>
      (Passed \<in> set (drop n (testStatuses st)) \<longrightarrow> generatedPassingTests))"

text \<open>
  The iterations of the \<open>for\<close> loop over the temperatures \<open>Ts\<close> that starts in state
  \<open>st\<close>: \<open>iterationStarts gen f Ts st T later s\<close> says that the loop comes to the
  temperature \<open>T\<close> in state \<open>s\<close>, with the temperatures \<open>later\<close> still to come. The
  loop comes to the next temperature when the one before gave no passing test.
\<close>

inductive iterationStarts ::
  "TestGenerator \<Rightarrow> APIFunction \<Rightarrow> real list \<Rightarrow> 'cov Engine \<Rightarrow> real \<Rightarrow> real list \<Rightarrow> 'cov Engine
   \<Rightarrow> bool"
  for gen :: TestGenerator and f :: APIFunction
where
  first: "iterationStarts gen f (T # Ts) st T Ts st"
| later: "processTemperature gen f T0 st = Some (False, s0) \<Longrightarrow>
     iterationStarts gen f Ts s0 T later s \<Longrightarrow>
     iterationStarts gen f (T0 # Ts) st T later s"

text \<open>The ranks of the prompts on the worklist, as a multiset.\<close>

definition worklistRanks :: "'cov loopState \<Rightarrow> nat multiset" where
  "worklistRanks ls = mset (map (\<lambda>a. rank (heap (snd (snd (snd ls))) ! a)) (fst ls))"

text \<open>
  The functions \<open>fs\<close> handed to \<open>generateAndValidateTests\<close> one after the other, with no
  deadline.
\<close>

fun generateForAll :: "TestGenerator \<Rightarrow> APIFunction list \<Rightarrow> 'cov Engine \<Rightarrow> 'cov Engine option" where
  "generateForAll gen [] st = Some st"
| "generateForAll gen (f # fs) st =
     (case generateAndValidateTests gen f st of
        None \<Rightarrow> None
      | Some st' \<Rightarrow> generateForAll gen fs st')"

text \<open>
  The outcome of the test of the deadline that \<open>runExperiment\<close> makes before it takes
  the \<open>k\<close>-th function, counting from \<open>0\<close>: the clock is read for the \<open>k + 1\<close>-th time
  and compared with the first read plus the time limit.
\<close>

definition expired :: "(nat \<Rightarrow> real) \<Rightarrow> real \<Rightarrow> nat \<Rightarrow> bool" where
  "expired now timeLimit k = (now (Suc k) > now 0 + timeLimit)"


section \<open>Example inputs\<close>

text \<open>A function \<open>p.f(x)\<close> of package \<open>p\<close>, with no doc comment and no body.\<close>

definition exDescriptor :: FunctionDescriptor where
  "exDescriptor =
     \<lparr>signature = ''(x)'', isAsync = False, implementation = [], isConstructor = False,
      docComment = None\<rparr>"

definition exFunction :: APIFunction where
  "exFunction = \<lparr>accessPath = ''p.f'', descriptor = exDescriptor, packageName = ''p''\<rparr>"

text \<open>A retry prompt whose failing body closes a bracket that does not match.\<close>

definition exRetryPrompt :: Prompt where
  "exRetryPrompt = newRetryPrompt (newPrompt exFunction [] defaultPromptOptions) '')'' ''boom''"

text \<open>
  The same function after a comment \<open>/** */\<close>: its doc comment is defined, and nothing
  is left of it once stars and blanks are trimmed.
\<close>

definition emptyDocFunction :: APIFunction where
  "emptyDocFunction = exFunction\<lparr>descriptor := exDescriptor\<lparr>docComment := Some ''* ''\<rparr>\<rparr>"

text \<open>Stand-ins for what is outside the repository.\<close>

definition acceptAll :: "string \<Rightarrow> bool" where
  "acceptAll input = True"

definition rejectAll :: "string \<Rightarrow> bool" where
  "rejectAll input = False"

definition noSnippets :: "string \<Rightarrow> string list option" where
  "noSnippets fn = None"

text \<open>A model that answers its first request with one completion and later ones with none.\<close>

definition oneCompletion :: "(string \<times> real) list \<Rightarrow> string \<Rightarrow> real \<Rightarrow> string list" where
  "oneCompletion requests prompt T = (if requests = [] then [''    ok();''] else [])"

definition noCompletion :: "(string \<times> real) list \<Rightarrow> string \<Rightarrow> real \<Rightarrow> string list" where
  "noCompletion requests prompt T = []"

definition alwaysFails :: "(string \<times> string) list \<Rightarrow> string \<Rightarrow> string \<Rightarrow> TestOutcome" where
  "alwaysFails validated testFile source =
     FAILED \<lparr>message = ''test failed'', code = None, stack = None\<rparr>"

definition alwaysPasses :: "(string \<times> string) list \<Rightarrow> string \<Rightarrow> string \<Rightarrow> TestOutcome" where
  "alwaysPasses validated testFile source = PASSED None None"

definition failingGenerator :: TestGenerator where
  "failingGenerator =
     \<lparr>temperatures = [0], snippetMap = noSnippets, completions = oneCompletion,
      validateTest = alwaysFails, parses = acceptAll\<rparr>"

definition passingGenerator :: TestGenerator where
  "passingGenerator =
     \<lparr>temperatures = [0], snippetMap = noSnippets, completions = oneCompletion,
      validateTest = alwaysPasses, parses = acceptAll\<rparr>"

definition rejectingGenerator :: TestGenerator where
  "rejectingGenerator =
     \<lparr>temperatures = [0], snippetMap = noSnippets, completions = oneCompletion,
      validateTest = alwaysPasses, parses = rejectAll\<rparr>"

definition silentGenerator :: TestGenerator where
  "silentGenerator =
     \<lparr>temperatures = [0, 1], snippetMap = noSnippets, completions = noCompletion,
      validateTest = alwaysPasses, parses = acceptAll\<rparr>"

text \<open>A collector that holds one test, recorded for the prompt at reference 0.\<close>

definition exTestInfo :: ITestInfo where
  "exTestInfo =
     \<lparr>id_T = 0, testName = ''test_0.js'',
      outcome = FAILED \<lparr>message = ''Invalid syntax'', code = None, stack = None\<rparr>,
      testSource = ''x'', prompts_T = [0], api = ''p.f''\<rparr>"

definition oneTestEngine :: "unit Engine" where
  "oneTestEngine =
     \<lparr>heap = [newPrompt exFunction [] defaultPromptOptions], tests = [(''x'', exTestInfo)],
      prompts = [], coverageSummary = (), modelLog = [], validatorLog = []\<rparr>"

text \<open>The number of requests sent to the completion model.\<close>

definition requestCount :: "'cov Engine \<Rightarrow> nat" where
  "requestCount st = length (modelLog st)"

text \<open>A clock that advances by one from each read to the next.\<close>

definition tickingClock :: "nat \<Rightarrow> real" where
  "tickingClock k = real k"

text \<open>
  A clock that stands at \<open>0\<close> for the first two reads and gives \<open>5\<close> from the third
  read on, and a clock that gives \<open>5\<close> from the second read on.
\<close>

definition lateClock :: "nat \<Rightarrow> real" where
  "lateClock k = (if k \<le> 1 then 0 else 5)"

definition jumpingClock :: "nat \<Rightarrow> real" where
  "jumpingClock k = (if k = 0 then 0 else 5)"

definition noCoverage :: "(string \<times> string) list \<Rightarrow> unit" where
  "noCoverage validated = ()"

text \<open>The initial prompt for the example function, and the loop state it starts in.\<close>

definition exPrompt :: Prompt where
  "exPrompt = newPrompt exFunction [] defaultPromptOptions"

definition exLoopStart :: "unit loopState" where
  "exLoopStart = ([0], False, [], (emptyEngine ())\<lparr>heap := [exPrompt]\<rparr>)"

text \<open>
  A model whose completion depends on the temperature, and a validator that leaves
  the first test it is given pending and passes the others: the first temperature
  gives no passing test and the second one does.
\<close>

definition byTemperature :: "(string \<times> real) list \<Rightarrow> string \<Rightarrow> real \<Rightarrow> string list" where
  "byTemperature requests prompt T = (if T = 0 then [''    no();''] else [''    yes();''])"

definition pendingFirst :: "(string \<times> string) list \<Rightarrow> string \<Rightarrow> string \<Rightarrow> TestOutcome" where
  "pendingFirst validated testFile source =
     (if validated = [] then PENDING else PASSED None None)"

definition variedGenerator :: TestGenerator where
  "variedGenerator =
     \<lparr>temperatures = [0, 1, 2], snippetMap = noSnippets, completions = byTemperature,
      validateTest = pendingFirst, parses = acceptAll\<rparr>"

definition afterFirstTemperature :: "unit Engine" where
  "afterFirstTemperature =
     snd (the (processTemperature variedGenerator exFunction 0 (emptyEngine ())))"

section \<open>Properties of the syntactic helpers\<close>

subsection \<open>The header of the prompts\<close>

text \<open>
  For a package name without newline and without backslash, \<open>dedent\<close> gives the three
  lines of the template, without their indentation and each ended by a newline, with
  the names put in as they are.
\<close>

lemma splitLines_line: "NL \<notin> set xs \<Longrightarrow> splitLines xs = [xs]"
  by (induction xs) auto

lemma splitLines_append: "NL \<notin> set xs \<Longrightarrow> splitLines (xs @ NL # ys) = xs # splitLines ys"
  by (induction xs) auto

lemma lineIndent_indented:
  assumes "\<not> isWhiteSpace c" and "0 < k"
  shows "lineIndent (replicate k (CHR '' '') @ c # rest) = Some k"
proof -
  have "isWhiteSpace (CHR '' '')" by (simp add: isWhiteSpace_def)
  then have "takeWhile isWhiteSpace (replicate k (CHR '' '') @ c # rest) = replicate k (CHR '' '')"
    using assms(1) by (induction k) simp_all
  then show ?thesis using assms(2) by (simp add: lineIndent_def)
qed

lemma trim_body:
  assumes "body \<noteq> []" and "\<not> isWhiteSpace (hd body)" and "\<not> isWhiteSpace (last body)"
  shows "trim (NL # body) = body"
proof -
  have "isWhiteSpace NL" by (simp add: isWhiteSpace_def)
  moreover have "dropWhile isWhiteSpace body = body"
    using assms(1,2) by (cases body) simp_all
  moreover have "dropWhile isWhiteSpace (rev body) = rev body"
    using assms(1,3) by (cases "rev body") (simp_all add: last_rev [symmetric] hd_rev)
  ultimately show ?thesis by (simp add: trim_def)
qed

lemma replaceEscapedNL_Cons:
  "c \<noteq> CHR 0x5C \<Longrightarrow> replaceEscapedNL (c # s) = c # replaceEscapedNL s"
  by (cases s) simp_all

lemma replaceEscapedNL_append:
  "CHR 0x5C \<notin> set xs \<Longrightarrow> replaceEscapedNL (xs @ ys) = xs @ replaceEscapedNL ys"
proof (induction xs)
  case Nil
  then show ?case by simp
next
  case (Cons a xs)
  then have "a \<noteq> CHR 0x5C" and "CHR 0x5C \<notin> set xs" by auto
  from replaceEscapedNL_Cons [OF this(1), of "xs @ ys"] Cons.IH [OF this(2)]
  show ?case by simp
qed

lemma sanitizePackageName_plain:
  "NL \<notin> set (sanitizePackageName n)" "CHR 0x5C \<notin> set (sanitizePackageName n)"
  by (auto simp: sanitizePackageName_def isIdentChar_def Let_def)

lemma importsHeader_plain:
  assumes "NL \<notin> set (packageName (apiFunction p))"
    and "CHR 0x5C \<notin> set (packageName (apiFunction p))"
  shows "importsHeader p =
     ''let mocha = require('' @ [CHR 0x27] @ ''mocha'' @ [CHR 0x27] @ '');'' @ [NL] @
     ''let assert = require('' @ [CHR 0x27] @ ''assert'' @ [CHR 0x27] @ '');'' @ [NL] @
     ''let '' @ sanitizePackageName (packageName (apiFunction p)) @ '' = require('' @
       [CHR 0x27] @ packageName (apiFunction p) @ [CHR 0x27] @ '');'' @ [NL]"
proof -
  define n where "n = packageName (apiFunction p)"
  define sn where "sn = sanitizePackageName n"
  define sp where "sp = replicate 12 (CHR '' '')"
  define A where "A = ''et mocha = require('' @ [CHR 0x27] @ ''mocha'' @ [CHR 0x27] @ '');''"
  define B where "B = ''et assert = require('' @ [CHR 0x27] @ ''assert'' @ [CHR 0x27] @ '');''"
  define C0 where "C0 = ''et '' @ sn @ '' = require('' @ [CHR 0x27] @ n @ [CHR 0x27] @ '');''"
  define C where "C = C0 @ [CHR 0x5C, CHR ''n'']"
  define l where "l = CHR ''l''"
  have n: "NL \<notin> set n" "CHR 0x5C \<notin> set n" using assms by (simp_all add: n_def)
  have sn: "NL \<notin> set sn" "CHR 0x5C \<notin> set sn"
    using sanitizePackageName_plain by (simp_all add: sn_def)
  have nl: "NL \<notin> set (sp @ l # A)" "NL \<notin> set (sp @ l # B)" "NL \<notin> set (sp @ l # C)"
    "NL \<notin> set ([] :: string)"
    using n sn by (simp_all add: sp_def A_def B_def C_def C0_def l_def)
  have bs: "CHR 0x5C \<notin> set (l # A)" "CHR 0x5C \<notin> set (l # B)" "CHR 0x5C \<notin> set (l # C0)"
    using n sn by (simp_all add: A_def B_def C0_def l_def)
  have l: "\<not> isWhiteSpace l" by (simp add: isWhiteSpace_def l_def)
  have template: "importsHeader p = dedent ([] @ NL # (sp @ l # A) @ NL # (sp @ l # B) @ NL # (sp @ l # C))"
    by (simp add: importsHeader_def importsTemplate_def sp_def A_def B_def C_def C0_def l_def n_def sn_def)
  have lines: "splitLines ([] @ NL # (sp @ l # A) @ NL # (sp @ l # B) @ NL # (sp @ l # C)) =
      [[], sp @ l # A, sp @ l # B, sp @ l # C]"
    unfolding splitLines_append [OF nl(4)] splitLines_append [OF nl(1)] splitLines_append [OF nl(2)]
      splitLines_line [OF nl(3)] ..
  have ind: "lineIndent (sp @ l # rest) = Some 12" for rest
    unfolding sp_def by (rule lineIndent_indented [OF l]) simp
  have none: "lineIndent [] = None" by (simp add: lineIndent_def)
  have mi: "minIndent [[], sp @ l # A, sp @ l # B, sp @ l # C] = Some 12"
    by (simp add: minIndent_def List.map_filter_def ind none)
  have cut: "(if take 1 (sp @ l # rest) = '' '' then drop 12 (sp @ l # rest) else sp @ l # rest) = l # rest"
    for rest by (simp add: sp_def)
  define body where "body = (l # A) @ NL # (l # B) @ NL # (l # C)"
  have cut0: "(if take 1 ([] :: string) = '' '' then drop 12 [] else []) = ([] :: string)"
    by simp
  have cuts: "map (\<lambda>l. if take 1 l = '' '' then drop 12 l else l)
        [[], sp @ l # A, sp @ l # B, sp @ l # C] = [[], l # A, l # B, l # C]"
    by (simp only: list.map cut cut0)
  have joined: "joinWith [NL]
        (map (\<lambda>l. if take 1 l = '' '' then drop 12 l else l) [[], sp @ l # A, sp @ l # B, sp @ l # C]) =
      NL # body"
    unfolding cuts by (simp add: body_def)
  have last_body: "last body = CHR ''n''" by (simp add: body_def C_def)
  have tr: "trim (NL # body) = body"
  proof (rule trim_body)
    show "body \<noteq> []" by (simp add: body_def)
    show "\<not> isWhiteSpace (hd body)" using l by (simp add: body_def)
    show "\<not> isWhiteSpace (last body)" by (simp add: last_body isWhiteSpace_def)
  qed
  have bs': "l \<noteq> CHR 0x5C" "CHR 0x5C \<notin> set A" "CHR 0x5C \<notin> set B" "CHR 0x5C \<notin> set C0"
    using bs by auto
  have final: "replaceEscapedNL [CHR 0x5C, CHR ''n''] = [NL]" by simp
  have rep: "replaceEscapedNL body = (l # A) @ NL # (l # B) @ NL # (l # C0) @ [NL]"
    unfolding body_def C_def
    by (simp add: replaceEscapedNL_append replaceEscapedNL_Cons bs' final
          del: replaceEscapedNL.simps)
  have "importsHeader p = (l # A) @ NL # (l # B) @ NL # (l # C0) @ [NL]"
    unfolding template dedent_def lines mi by (simp only: Let_def option.case joined tr rep)
  then show ?thesis
    by (simp add: A_def B_def C0_def l_def n_def sn_def)
qed

text \<open>
  For the evaluation of runs: the header is computed by \<open>dedent\<close> only for a package name
  with a newline or a backslash in it.
\<close>

lemma importsHeader_code [code]:
  "importsHeader p =
     (if NL \<notin> set (packageName (apiFunction p)) \<and> CHR 0x5C \<notin> set (packageName (apiFunction p))
      then ''let mocha = require('' @ [CHR 0x27] @ ''mocha'' @ [CHR 0x27] @ '');'' @ [NL] @
           ''let assert = require('' @ [CHR 0x27] @ ''assert'' @ [CHR 0x27] @ '');'' @ [NL] @
           ''let '' @ sanitizePackageName (packageName (apiFunction p)) @ '' = require('' @
             [CHR 0x27] @ packageName (apiFunction p) @ [CHR 0x27] @ '');'' @ [NL]
      else dedent (importsTemplate p))"
  using importsHeader_plain [of p] by (simp add: importsHeader_def)


subsection \<open>closeBrackets\<close>

lemma closing_closers: "closing c = Some cl \<Longrightarrow> cl \<in> closers"
  by (auto simp: closing_def closers_def split: if_splits)

lemma scanBrackets_closers:
  "scanBrackets input brackets = Some brackets' \<Longrightarrow> set brackets \<subseteq> closers
   \<Longrightarrow> set brackets' \<subseteq> closers"
proof (induction input brackets rule: scanBrackets.induct)
  case (1 brackets)
  then show ?case by simp
next
  case (2 c cs brackets)
  show ?case
  proof (cases "lineCommentAhead c cs")
    case True
    show ?thesis
    proof (cases "skipLineComment (c # cs)")
      case None
      with True "2.prems" show ?thesis by simp
    next
      case (Some rest)
      with True "2.prems" have "scanBrackets rest brackets = Some brackets'" by simp
      from "2.IH"(1) [OF True Some this "2.prems"(2)] show ?thesis .
    qed
  next
    case False
    show ?thesis
    proof (cases "closing c")
      case (Some cl)
      with False "2.prems" have "scanBrackets cs (cl # brackets) = Some brackets'" by simp
      moreover have "set (cl # brackets) \<subseteq> closers"
        using closing_closers [OF Some] "2.prems"(2) by simp
      ultimately show ?thesis using "2.IH"(4) [OF False Some] by blast
    next
      case None
      show ?thesis
      proof (cases "c \<in> closers")
        case c: True
        show ?thesis
        proof (cases brackets)
          case Nil
          with False None c "2.prems" show ?thesis by simp
        next
          case (Cons b bs)
          with False None c "2.prems" have eq: "b = c" and
            "scanBrackets cs bs = Some brackets'"
            by (simp_all split: if_splits)
          moreover have "set bs \<subseteq> closers" using "2.prems"(2) Cons by simp
          ultimately show ?thesis using "2.IH"(2) [OF False None c Cons] by blast
        qed
      next
        case c: False
        with False None "2.prems" have "scanBrackets cs brackets = Some brackets'" by simp
        then show ?thesis using "2.IH"(3) [OF False None c] "2.prems"(2) by blast
      qed
    qed
  qed
qed

lemma closing_pairs: "closing a = Some b \<longleftrightarrow> (a, b) \<in> set bracketPairs"
  by (auto simp: closing_def bracketPairs_def split: if_splits)

lemma closers_pairs: "c \<in> closers \<longleftrightarrow> c \<in> snd ` set bracketPairs"
  by (auto simp: closers_def bracketPairs_def)

lemma isBracket_iff: "isBracket c \<longleftrightarrow> closing c \<noteq> None \<or> c \<in> closers"
  by (auto simp: isBracket_def closing_def closers_def bracketPairs_def)

lemma bracket_no_comment: "isBracket c \<Longrightarrow> \<not> lineCommentAhead c cs"
  by (auto simp: isBracket_def bracketPairs_def lineCommentAhead_def)

lemma pair_facts:
  assumes "(a, b) \<in> set bracketPairs"
  shows "closing a = Some b" "closing b = None" "b \<in> closers" "isBracket a" "isBracket b"
  using assms by (auto simp: closing_def closers_def bracketPairs_def isBracket_def)

lemma skip_strip:
  "skipLineComment xs = None \<Longrightarrow> stripLineComments True xs = []"
  "skipLineComment xs = Some rest \<Longrightarrow> stripLineComments True xs = stripLineComments False rest"
  by (induction xs) (auto split: if_splits)

lemma comment_strip:
  assumes "lineCommentAhead c cs"
  shows "stripLineComments False (c # cs) = stripLineComments True (c # cs)"
  using assms by (cases cs) (auto simp: lineCommentAhead_def)

lemma no_comment_strip:
  assumes "\<not> lineCommentAhead c cs"
  shows "stripLineComments False (c # cs) = c # stripLineComments False cs"
  using assms by (cases cs) (auto simp: lineCommentAhead_def)

lemma scanBrackets_bracket:
  assumes "isBracket c"
  shows "scanBrackets (c # cs) stk =
     (case closing c of
           Some cl \<Rightarrow> scanBrackets cs (cl # stk)
         | None \<Rightarrow>
               (case stk of
                  [] \<Rightarrow> None
                | b # bs \<Rightarrow> if b = c then scanBrackets cs bs else None))"
  using assms bracket_no_comment [OF assms, of cs] by (auto simp: isBracket_iff split: option.splits)

lemma scanBrackets_bracketsOf: "scanBrackets s stk = scanBrackets (bracketsOf s) stk"
proof (induction s stk rule: scanBrackets.induct)
  case (1 brackets)
  then show ?case by (simp add: bracketsOf_def)
next
  case (2 c cs brackets)
  show ?case
  proof (cases "lineCommentAhead c cs")
    case True
    show ?thesis
    proof (cases "skipLineComment (c # cs)")
      case None
      with True show ?thesis
        using skip_strip(1) [OF None] comment_strip [OF True] by (simp add: bracketsOf_def)
    next
      case (Some rest)
      have "bracketsOf (c # cs) = bracketsOf rest"
        using skip_strip(2) [OF Some] comment_strip [OF True] by (simp add: bracketsOf_def)
      with True Some "2.IH"(1) [OF True Some] show ?thesis by simp
    qed
  next
    case False
    note nc = no_comment_strip [OF False]
    show ?thesis
    proof (cases "isBracket c")
      case b: True
      then have bo: "bracketsOf (c # cs) = c # bracketsOf cs" by (simp add: bracketsOf_def nc del: stripLineComments.simps)
      show ?thesis
      proof (cases "closing c")
        case (Some cl)
        with False "2.IH"(4) [OF False Some] show ?thesis
          unfolding bo scanBrackets_bracket [OF b] by simp
      next
        case None
        with b have c: "c \<in> closers" by (simp add: isBracket_iff)
        show ?thesis
        proof (cases brackets)
          case Nil
          with False None c show ?thesis unfolding bo scanBrackets_bracket [OF b] by simp
        next
          case (Cons x xs)
          with False None c "2.IH"(2) [OF False None c Cons] show ?thesis
            unfolding bo scanBrackets_bracket [OF b] by simp
        qed
      qed
    next
      case nb: False
      then have bo: "bracketsOf (c # cs) = bracketsOf cs" by (simp add: bracketsOf_def nc del: stripLineComments.simps)
      from nb have "closing c = None" "c \<notin> closers" by (auto simp: isBracket_iff)
      with False "2.IH"(3) [OF False] show ?thesis unfolding bo by simp
    qed
  qed
qed

lemma scanBrackets_pair:
  assumes "\<forall>x\<in>set u. isBracket x" and "(a, b) \<in> set bracketPairs"
  shows "scanBrackets (u @ a # b # v) stk = scanBrackets (u @ v) stk"
  using assms(1)
proof (induction u arbitrary: stk)
  case Nil
  from pair_facts [OF assms(2)] show ?case
    by (simp add: scanBrackets_bracket del: scanBrackets.simps)
next
  case (Cons x u)
  then have x: "isBracket x" and u: "\<forall>x\<in>set u. isBracket x" by simp_all
  show ?case
    using Cons.IH [OF u]
    by (simp add: scanBrackets_bracket [OF x] del: scanBrackets.simps split: option.splits list.splits)
qed

lemma wellNested_brackets: "wellNested bs \<Longrightarrow> \<forall>x\<in>set bs. isBracket x"
  by (induction rule: wellNested.induct) (auto dest: pair_facts(4,5))

lemma wellNested_scan: "wellNested bs \<Longrightarrow> scanBrackets bs [] = Some []"
proof (induction rule: wellNested.induct)
  case empty
  then show ?case by simp
next
  case (pair u v a b)
  from wellNested_brackets [OF pair.hyps(1)] have "\<forall>x\<in>set u. isBracket x" by simp
  from scanBrackets_pair [OF this pair.hyps(2)] pair.IH show ?case by simp
qed

lemma wellNested_closed:
  "list_all2 (\<lambda>a b. (a, b) \<in> set bracketPairs) os stk \<Longrightarrow> wellNested (rev os @ stk)"
proof (induction rule: list_all2_induct)
  case Nil
  then show ?case by (simp add: wellNested.empty)
next
  case (Cons a os b stk)
  from wellNested.pair [OF Cons.IH Cons.hyps(1)] show ?case by simp
qed

lemma scan_wellNested:
  assumes "\<forall>x\<in>set bs. isBracket x"
    and "list_all2 (\<lambda>a b. (a, b) \<in> set bracketPairs) os stk"
    and "scanBrackets bs stk = Some suffix"
  shows "wellNested (rev os @ bs @ suffix)"
  using assms
proof (induction bs arbitrary: os stk)
  case Nil
  then show ?case using wellNested_closed by simp
next
  case (Cons c cs)
  then have c: "isBracket c" and cs: "\<forall>x\<in>set cs. isBracket x" by simp_all
  show ?case
  proof (cases "closing c")
    case (Some cl)
    with Cons.prems(3) have run: "scanBrackets cs (cl # stk) = Some suffix"
      by (simp add: scanBrackets_bracket [OF c] del: scanBrackets.simps)
    from Some have "(c, cl) \<in> set bracketPairs" by (simp add: closing_pairs)
    with Cons.prems(2) have "list_all2 (\<lambda>a b. (a, b) \<in> set bracketPairs) (c # os) (cl # stk)"
      by simp
    from Cons.IH [OF cs this run] show ?thesis by simp
  next
    case None
    with Cons.prems(3) obtain stk' where stk: "stk = c # stk'"
      and run: "scanBrackets cs stk' = Some suffix"
      by (auto simp: scanBrackets_bracket [OF c] simp del: scanBrackets.simps
          split: list.splits if_splits)
    with Cons.prems(2) obtain a os' where os: "os = a # os'" "(a, c) \<in> set bracketPairs"
      "list_all2 (\<lambda>a b. (a, b) \<in> set bracketPairs) os' stk'"
      by (auto simp: list_all2_Cons2)
    from Cons.IH [OF cs os(3) run] have "wellNested (rev os' @ cs @ suffix)" .
    from wellNested.pair [OF this os(2)] show ?thesis by (simp add: os)
  qed
qed

lemma bracketsOf_brackets: "\<forall>x\<in>set (bracketsOf s). isBracket x"
  by (simp add: bracketsOf_def)

lemma scan_balanced: "scanBrackets s [] = Some [] \<longleftrightarrow> balanced s"
proof
  assume "scanBrackets s [] = Some []"
  then have "scanBrackets (bracketsOf s) [] = Some []" by (simp add: scanBrackets_bracketsOf [symmetric])
  from scan_wellNested [OF bracketsOf_brackets _ this, of "[]"] show "balanced s"
    by (simp add: balanced_def)
next
  assume "balanced s"
  then show "scanBrackets s [] = Some []"
    using wellNested_scan [of "bracketsOf s"] scanBrackets_bracketsOf [of s "[]"]
    by (simp add: balanced_def)
qed

lemma scan_suffix:
  assumes "scanBrackets s [] = Some suffix"
  shows "wellNested (bracketsOf s @ suffix)"
proof -
  from assms have "scanBrackets (bracketsOf s) [] = Some suffix"
    by (simp add: scanBrackets_bracketsOf [symmetric])
  from scan_wellNested [OF bracketsOf_brackets _ this, of "[]"] show ?thesis by simp
qed

text \<open>
  Claim C7. Whenever \<open>closeBrackets s\<close> succeeds, its source is accepted by the parser,
  and it is \<open>s\<close> itself exactly when \<open>s\<close> is balanced: when the brackets of \<open>s\<close> outside
  line comments are well-nested. The source is \<open>s\<close> followed by closing brackets that
  make the brackets of \<open>s\<close> well-nested; for an unbalanced \<open>s\<close> this suffix is not empty,
  so the source differs from \<open>s\<close>. A balanced \<open>s\<close> that the parser accepts comes back
  unchanged, and a balanced \<open>s\<close> that the parser refuses gives no result.
\<close>

theorem closeBrackets_source:
  "(closeBrackets parser s = Some src \<longrightarrow>
      parser src \<and> (src = s \<longleftrightarrow> balanced s) \<and>
      (\<exists>suffix. src = s @ suffix \<and> set suffix \<subseteq> closers \<and>
         wellNested (bracketsOf s @ suffix) \<and>
         (\<not> balanced s \<longrightarrow> suffix \<noteq> [] \<and> src \<noteq> s))) \<and>
   (balanced s \<longrightarrow> closeBrackets parser s = (if parser s then Some s else None))"
proof (intro conjI impI)
  assume run: "closeBrackets parser s = Some src"
  then obtain suffix where
    scan: "scanBrackets s [] = Some suffix" and ok: "parser (s @ suffix)" and
    src: "src = s @ suffix"
    by (auto simp: closeBrackets_def split: option.splits if_splits)
  have closers: "set suffix \<subseteq> closers"
    using scanBrackets_closers [OF scan] by simp
  have iff: "suffix = [] \<longleftrightarrow> balanced s"
    using scan scan_balanced [of s] by auto
  show "parser src" using ok src by simp
  show "src = s \<longleftrightarrow> balanced s" using iff src by simp
  show "\<exists>suffix. src = s @ suffix \<and> set suffix \<subseteq> closers \<and>
         wellNested (bracketsOf s @ suffix) \<and>
         (\<not> balanced s \<longrightarrow> suffix \<noteq> [] \<and> src \<noteq> s)"
    using src closers scan_suffix [OF scan] iff by auto
next
  assume "balanced s"
  then have "scanBrackets s [] = Some []" by (simp add: scan_balanced)
  then show "closeBrackets parser s = (if parser s then Some s else None)"
    by (simp add: closeBrackets_def)
qed

theorem closeBrackets_source_witness:
  "closeBrackets (\<lambda>input. True) ''f('' = Some ''f()'' \<and> \<not> balanced ''f('' \<and>
   balanced (''//('' @ [NL] @ ''f(x)'') \<and>
   closeBrackets (\<lambda>input. True) (''//('' @ [NL] @ ''f(x)'') = Some (''//('' @ [NL] @ ''f(x)'')"
proof -
  have run: "closeBrackets (\<lambda>input. True) ''f('' = Some ''f()''"
    by (simp add: closeBrackets_def closing_def closers_def lineCommentAhead_def)
  from closeBrackets_source [of "\<lambda>input. True" "''f(''" "''f()''"] run
  have unbalanced: "\<not> balanced ''f(''" by simp
  have "(CHR ''('', CHR '')'') \<in> set bracketPairs" by (simp add: bracketPairs_def)
  from wellNested.pair [of "[]" "[]", OF _ this] have "wellNested ''()''"
    by (simp add: wellNested.empty)
  then have bal: "balanced (''//('' @ [NL] @ ''f(x)'')"
    by (simp add: balanced_def bracketsOf_def isBracket_def bracketPairs_def)
  from closeBrackets_source [of "\<lambda>input. True" "''//('' @ [NL] @ ''f(x)''"] bal
  have "closeBrackets (\<lambda>input. True) (''//('' @ [NL] @ ''f(x)'') = Some (''//('' @ [NL] @ ''f(x)'')"
    by simp
  with run unbalanced bal show ?thesis by simp
qed

subsection \<open>trimCompletion\<close>

lemma trim_idem: "trim (trim s) = trim s"
proof -
  define u where "u = dropWhile isWhiteSpace s"
  define v where "v = dropWhile isWhiteSpace (rev u)"
  have hd_u: "u \<noteq> [] \<Longrightarrow> \<not> isWhiteSpace (hd u)"
    unfolding u_def by (simp add: hd_dropWhile)
  have hd_v: "v \<noteq> [] \<Longrightarrow> \<not> isWhiteSpace (hd v)"
    unfolding v_def by (simp add: hd_dropWhile)
  have "dropWhile isWhiteSpace (rev v) = rev v"
  proof (cases "v = []")
    case True then show ?thesis by simp
  next
    case False
    then have "u \<noteq> []" unfolding v_def by auto
    have "rev u = takeWhile isWhiteSpace (rev u) @ v"
      unfolding v_def by simp
    then have "u = rev v @ rev (takeWhile isWhiteSpace (rev u))"
      by (metis rev_append rev_rev_ident)
    with False have "hd (rev v) = hd u"
      by (metis hd_append2 rev_is_Nil_conv)
    with hd_u \<open>u \<noteq> []\<close> have "\<not> isWhiteSpace (hd (rev v))" by simp
    with False show ?thesis
      by (cases "rev v") auto
  qed
  moreover have "dropWhile isWhiteSpace v = v"
    using hd_v by (cases v) auto
  ultimately show ?thesis
    by (simp add: trim_def u_def [symmetric] v_def [symmetric])
qed

lemma trim_last: "trim s \<noteq> [] \<Longrightarrow> \<not> isWhiteSpace (last (trim s))"
  by (simp add: trim_def last_rev hd_dropWhile)

lemma length_trim: "length (trim s) \<le> length s"
  unfolding trim_def
  by (metis length_dropWhile_le length_rev order_trans)

lemma trim_decomp: "\<exists>a b. s = a @ trim s @ b \<and> (\<forall>c\<in>set a. isWhiteSpace c)"
proof -
  define u where "u = dropWhile isWhiteSpace s"
  have "s = takeWhile isWhiteSpace s @ u" by (simp add: u_def)
  moreover have "u = trim s @ rev (takeWhile isWhiteSpace (rev u))"
    unfolding trim_def u_def [symmetric]
    by (metis rev_append rev_rev_ident takeWhile_dropWhile_id)
  moreover have "\<forall>c\<in>set (takeWhile isWhiteSpace s). isWhiteSpace c"
    by (auto dest: set_takeWhileD)
  ultimately show ?thesis by metis
qed

lemma endsComplete_last:
  "t \<noteq> [] \<Longrightarrow> \<not> isWhiteSpace (last t) \<Longrightarrow>
   endsComplete t \<longleftrightarrow> last t = CHR '';'' \<or> last t = CHR ''}'' \<or> last t = CHR '')''"
  by (cases "rev t") (auto simp: endsComplete_def last_rev [symmetric] simp del: last_rev)

lemma length_cutUnopened: "length (cutUnopened s stk) \<le> length s"
  by (induction s stk rule: cutUnopened.induct) (auto split: list.splits)

lemma cutUnopened_idem: "cutUnopened (cutUnopened s stk) stk = cutUnopened s stk"
  by (induction s stk rule: cutUnopened.induct) (auto split: list.splits)

lemma cutUnopened_prefix:
  "cutUnopened (a @ b) stk = a @ b \<Longrightarrow> cutUnopened a stk = a"
  by (induction a stk rule: cutUnopened.induct) (auto split: list.splits if_splits)

lemma isWhiteSpace_not_bracket:
  "isWhiteSpace c \<Longrightarrow> c \<noteq> CHR ''{'' \<and> c \<noteq> CHR ''('' \<and> c \<noteq> CHR ''}'' \<and> c \<noteq> CHR '')''"
  unfolding isWhiteSpace_def by auto

lemma cutUnopened_white:
  "isWhiteSpace c \<Longrightarrow> cutUnopened (c # cs) stk = c # cutUnopened cs stk"
  using isWhiteSpace_not_bracket [of c] by simp

lemma cutUnopened_skip_white:
  "\<forall>c\<in>set a. isWhiteSpace c \<Longrightarrow> cutUnopened (a @ b) stk = a @ b \<Longrightarrow> cutUnopened b stk = b"
proof (induction a)
  case Nil
  then show ?case by simp
next
  case (Cons c a)
  then have "isWhiteSpace c" by simp
  from cutUnopened_white [OF this] Cons.prems(2)
  have "cutUnopened (a @ b) stk = a @ b" by simp
  with Cons show ?case by simp
qed

lemma cutUnopened_trim:
  assumes "cutUnopened u [] = u"
  shows "cutUnopened (trim u) [] = trim u"
proof -
  obtain a b where u: "u = a @ trim u @ b" and a: "\<forall>c\<in>set a. isWhiteSpace c"
    using trim_decomp by blast
  from assms u have "cutUnopened (a @ (trim u @ b)) [] = a @ (trim u @ b)" by simp
  from cutUnopened_skip_white [OF a this] show ?thesis
    by (rule cutUnopened_prefix)
qed

lemma lastIndexOfNL_less: "s \<noteq> [] \<Longrightarrow> lastIndexOfNL s < length s"
  by (simp add: lastIndexOfNL_def)

lemma trimCompletion_shorter:
  assumes "t \<noteq> []" "\<not> endsComplete t"
  shows "length (trimCompletion t) < length t"
proof -
  define n where "n = (if NL \<in> set t then lastIndexOfNL t else 0)"
  have "n < length t"
    using assms(1) by (simp add: n_def lastIndexOfNL_less)
  have "trimCompletion t = trim (cutUnopened (take n t) [])"
    using assms(2) by (simp add: trimCompletion_def n_def)
  moreover have "length (trim (cutUnopened (take n t) [])) \<le> length (take n t)"
    using length_trim length_cutUnopened order_trans by blast
  ultimately show ?thesis using \<open>n < length t\<close> by simp
qed

lemma trimCompletion_trimmed: "trim (trimCompletion s) = trimCompletion s"
  by (simp add: trimCompletion_def Let_def trim_idem)

lemma trimCompletion_cut: "cutUnopened (trimCompletion s) [] = trimCompletion s"
  by (simp add: trimCompletion_def Let_def cutUnopened_trim cutUnopened_idem)

lemma trimCompletion_Nil: "trimCompletion [] = []"
  by (simp add: trimCompletion_def endsComplete_def trim_def)

text \<open>
  Claim C8, as stated, fails: \<open>trimCompletion\<close> is not idempotent. The text \<open>x)\<close> ends
  with a closing bracket and is cut before it, which leaves \<open>x\<close>; \<open>x\<close> is an incomplete
  line, and trimming it again leaves the empty text.
\<close>

theorem trimCompletion_not_idempotent:
  "trimCompletion (trimCompletion ''x)'') \<noteq> trimCompletion ''x)''"
  by (simp add: trimCompletion_def endsComplete_def trim_def isWhiteSpace_def)

text \<open>
  Claim C8, amended. Trimming a second time changes nothing exactly when the first
  result is empty or ends with \<open>;\<close>, \<open>}\<close> or \<open>)\<close>.
\<close>

theorem trimCompletion_idempotent_iff:
  "trimCompletion (trimCompletion s) = trimCompletion s \<longleftrightarrow>
   (trimCompletion s = [] \<or> last (trimCompletion s) = CHR '';'' \<or>
    last (trimCompletion s) = CHR ''}'' \<or> last (trimCompletion s) = CHR '')'')"
proof (cases "trimCompletion s = []")
  case True
  then show ?thesis by (simp add: trimCompletion_Nil)
next
  case False
  define t where "t = trimCompletion s"
  have ne: "t \<noteq> []" using False by (simp add: t_def)
  have nw: "\<not> isWhiteSpace (last t)"
    using trim_last [of t] ne trimCompletion_trimmed [of s] by (simp add: t_def)
  note ec = endsComplete_last [OF ne nw]
  show ?thesis
  proof (cases "endsComplete t")
    case True
    then have "trimCompletion t = trim (cutUnopened t [])"
      by (simp add: trimCompletion_def)
    then have "trimCompletion t = t"
      using trimCompletion_cut [of s] trimCompletion_trimmed [of s] by (simp add: t_def)
    with True ec show ?thesis by (simp add: t_def)
  next
    case F: False
    from trimCompletion_shorter [OF ne F] have "trimCompletion t \<noteq> t" by auto
    with F ec ne show ?thesis by (simp add: t_def)
  qed
qed

theorem trimCompletion_idempotent_iff_witness:
  "trimCompletion (trimCompletion ''a;  '') = trimCompletion ''a;  '' \<and>
   last (trimCompletion ''a;  '') = CHR '';''"
proof -
  have "trimCompletion ''a;  '' = ''a;''"
    by (simp add: trimCompletion_def endsComplete_def trim_def isWhiteSpace_def)
  with trimCompletion_idempotent_iff [of "''a;  ''"] show ?thesis by simp
qed

subsection \<open>Assembly of retry prompts\<close>

text \<open>
  Claim C10. \<open>assemble\<close> on a retry prompt always yields a text. Where \<open>closeBrackets\<close>
  cannot repair the failing test, the text is the base prompt and the failing body,
  a newline and the closing line \<open>})\<close>, then the three comment lines with the error
  message, then the test header; where it can, the repaired source takes the place of
  the first part.
\<close>

theorem retry_assemble_total:
  assumes "retry p = Some (body, err)"
  shows "(closeBrackets parser (assemblePrompt p @ body @ [NL]) = None \<longrightarrow>
            assemble parser p =
              assemblePrompt p @ body @ [NL] @ ''    })'' @ [NL] @
              ''    // the test above fails with the following error:'' @ [NL] @
              ''    //   '' @ err @ [NL] @
              ''    // fixed test:'' @ [NL] @ testHeader p) \<and>
         (\<forall>source. closeBrackets parser (assemblePrompt p @ body @ [NL]) = Some source \<longrightarrow>
            assemble parser p =
              replaceClosers (''    })'' @ [NL]) source @
              ''    // the test above fails with the following error:'' @ [NL] @
              ''    //   '' @ err @ [NL] @
              ''    // fixed test:'' @ [NL] @ testHeader p)"
  using assms by (simp add: assemble_def assembleRetry_def retryTrailer_def)

theorem retry_assemble_total_witness:
  "retry exRetryPrompt = Some ('')'', ''boom'') \<and>
   closeBrackets (\<lambda>input. True) (assemblePrompt exRetryPrompt @ '')'' @ [NL]) = None \<and>
   assemble (\<lambda>input. True) exRetryPrompt =
     assemblePrompt exRetryPrompt @ '')'' @ [NL] @ ''    })'' @ [NL] @
     ''    // the test above fails with the following error:'' @ [NL] @
     ''    //   boom'' @ [NL] @
     ''    // fixed test:'' @ [NL] @ testHeader exRetryPrompt"
proof -
  have r: "retry exRetryPrompt = Some ('')'', ''boom'')"
    by (simp add: exRetryPrompt_def newRetryPrompt_def)
  have c: "closeBrackets (\<lambda>input. True) (assemblePrompt exRetryPrompt @ '')'' @ [NL]) = None"
    by code_simp
  from retry_assemble_total [OF r, of "\<lambda>input. True"] c r show ?thesis by simp
qed


section \<open>Properties of the engine\<close>

subsection \<open>Association lists\<close>

lemma update_fresh: "k \<notin> fst ` set al \<Longrightarrow> AList.update k v al = al @ [(k, v)]"
  by (induction al) auto

lemma map_of_None_fresh: "map_of al k = None \<Longrightarrow> k \<notin> fst ` set al"
  by (simp add: map_of_eq_None_iff)

lemma update_known_map:
  "map_of al k = Some v0 \<Longrightarrow> g v = g v0 \<Longrightarrow> map (\<lambda>e. g (snd e)) (AList.update k v al) = map (\<lambda>e. g (snd e)) al"
  by (induction al) (auto split: if_splits)

lemma set_update_subset: "set (AList.update k v al) \<subseteq> insert (k, v) (set al)"
  by (induction al) auto

subsection \<open>The loop rule\<close>

lemma worklistLoop_rule:
  assumes run: "worklistLoop gen T ls = Some res"
    and init: "I ls"
    and step: "\<And>wl fl gp st. I (wl, fl, gp, st) \<Longrightarrow> wl \<noteq> [] \<Longrightarrow> I (loopBody gen T (wl, fl, gp, st))"
  shows "\<exists>gp. I ([], fst res, gp, snd res)"
proof -
  let ?step = "\<lambda>g t. \<forall>wl fl gp st. I (wl, fl, gp, st) \<and> wl \<noteq> [] \<longrightarrow> I (loopBody g t (wl, fl, gp, st))"
  let ?P = "\<lambda>g t l r. I l \<longrightarrow> ?step g t \<longrightarrow> (\<exists>gp. I ([], fst r, gp, snd r))"
  have "?P gen T ls res"
  proof (rule worklistLoop.raw_induct [where P = ?P, OF _ run])
    fix loop :: "TestGenerator \<Rightarrow> real \<Rightarrow> 'a loopState \<Rightarrow> (bool \<times> 'a Engine) option"
    fix g t l r
    assume IH: "\<And>g t l r. loop g t l = Some r \<Longrightarrow> ?P g t l r"
    assume eq: "(case l of (worklist, generatedPassingTests, generatedPrompts, st) \<Rightarrow>
        if worklist = [] then Some (generatedPassingTests, st)
        else loop g t (loopBody g t l)) = Some r"
    obtain wl fl gp st where l: "l = (wl, fl, gp, st)" by (cases l) auto
    show "?P g t l r"
    proof (intro impI)
      assume I: "I l" and st: "?step g t"
      show "\<exists>gp. I ([], fst r, gp, snd r)"
      proof (cases "wl = []")
        case True
        with eq l have "r = (fl, st)" by simp
        with True l I show ?thesis by auto
      next
        case False
        with eq l have "loop g t (loopBody g t l) = Some r" by simp
        moreover have "I (loopBody g t l)" using I st False l by blast
        ultimately show ?thesis using IH st by blast
      qed
    qed
  qed
  with init step show ?thesis by blast
qed


lemma worklistLoop_invariant:
  assumes run: "worklistLoop gen T (wl, fl, gp, st) = Some res"
    and init: "I wl fl gp st"
    and step: "\<And>wl fl gp st wl' fl' gp' st'.
                 I wl fl gp st \<Longrightarrow> wl \<noteq> [] \<Longrightarrow>
                 loopBody gen T (wl, fl, gp, st) = (wl', fl', gp', st') \<Longrightarrow> I wl' fl' gp' st'"
  shows "\<exists>gp'. I [] (fst res) gp' (snd res)"
proof -
  let ?I = "\<lambda>ls. case ls of (wl, fl, gp, st) \<Rightarrow> I wl fl gp st"
  have "\<exists>gp'. ?I ([], fst res, gp', snd res)"
  proof (rule worklistLoop_rule [of gen T "(wl, fl, gp, st)" res ?I])
    show "worklistLoop gen T (wl, fl, gp, st) = Some res" by (rule run)
    show "?I (wl, fl, gp, st)" using init by simp
  next
    fix wl fl gp and st :: "'a Engine"
    assume a: "?I (wl, fl, gp, st)" and ne: "wl \<noteq> []"
    obtain wl' fl' gp' st' where b: "loopBody gen T (wl, fl, gp, st) = (wl', fl', gp', st')"
      by (cases "loopBody gen T (wl, fl, gp, st)") auto
    from a have "I wl fl gp st" by simp
    from step [OF this ne b] show "?I (loopBody gen T (wl, fl, gp, st))" by (simp add: b)
  qed
  then show ?thesis by simp
qed

lemma update_append_last:
  "k \<notin> fst ` set al \<Longrightarrow> AList.update k v (al @ [(k, v0)]) = al @ [(k, v)]"
  by (induction al) auto

subsection \<open>The collector\<close>

lemma recordTestInfo_known:
  assumes "map_of (tests st) src = Some ti"
  shows "recordTestInfo src p a st =
           (ti\<lparr>prompts_T := prompts_T ti @ [p]\<rparr>,
            st\<lparr>tests := AList.update src (ti\<lparr>prompts_T := prompts_T ti @ [p]\<rparr>) (tests st)\<rparr>)"
  using assms by (simp add: recordTestInfo_def Let_def)

lemma recordTestInfo_new:
  assumes "map_of (tests st) src = None"
  shows "recordTestInfo src p a st =
           (\<lparr>id_T = length (tests st), testName = ''test_'' @ showNat (length (tests st)) @ ''.js'',
             outcome = OTHER, testSource = src, prompts_T = [p], api = a\<rparr>,
            st\<lparr>tests := tests st @
               [(src, \<lparr>id_T = length (tests st),
                       testName = ''test_'' @ showNat (length (tests st)) @ ''.js'',
                       outcome = OTHER, testSource = src, prompts_T = [p], api = a\<rparr>)]\<rparr>)"
  using assms map_of_None_fresh [OF assms]
  by (simp add: recordTestInfo_def Let_def update_fresh)

lemma validateCompletion_known:
  assumes key: "key = (case completeTest (parses gen) (heap st ! a) c True of
                         Some src \<Rightarrow> src | None \<Rightarrow> c)"
    and known: "map_of (tests st) key = Some ti"
    and ne: "prompts_T ti \<noteq> []"
  shows "validateCompletion gen a c T st =
           (ti\<lparr>prompts_T := prompts_T ti @ [a]\<rparr>,
            st\<lparr>tests := AList.update key (ti\<lparr>prompts_T := prompts_T ti @ [a]\<rparr>) (tests st)\<rparr>)"
proof -
  have "1 < length (prompts_T ti @ [a])" using ne by (cases "prompts_T ti") auto
  then show ?thesis
    using recordTestInfo_known [OF known, of a "accessPath (apiFunction (heap st ! a))"]
    by (simp add: validateCompletion_def Let_def key [symmetric])
qed

lemma validateCompletion_new:
  assumes key: "key = (case completeTest (parses gen) (heap st ! a) c True of
                         Some src \<Rightarrow> src | None \<Rightarrow> c)"
    and new: "map_of (tests st) key = None"
  defines "ti0 \<equiv> \<lparr>id_T = length (tests st),
                   testName = ''test_'' @ showNat (length (tests st)) @ ''.js'',
                   outcome = OTHER, testSource = key, prompts_T = [a],
                   api = accessPath (apiFunction (heap st ! a))\<rparr>"
  defines "validated \<equiv> (c \<noteq> [] \<and> completeTest (parses gen) (heap st ! a) c True \<noteq> None)"
  defines "res \<equiv> (if c = [] then FAILED \<lparr>message = ''Empty test'', code = None, stack = None\<rparr>
                  else if completeTest (parses gen) (heap st ! a) c True \<noteq> None
                  then validateTest gen (validatorLog st) (testName ti0) key
                  else FAILED \<lparr>message = ''Invalid syntax'', code = None, stack = None\<rparr>)"
  shows "validateCompletion gen a c T st =
           (ti0\<lparr>outcome := res\<rparr>,
            st\<lparr>tests := tests st @ [(key, ti0\<lparr>outcome := res\<rparr>)],
               validatorLog := (if validated then validatorLog st @ [(testName ti0, key)]
                                else validatorLog st)\<rparr>)"
proof -
  note fresh = map_of_None_fresh [OF new]
  have rec: "recordTestInfo key a (accessPath (apiFunction (heap st ! a))) st =
               (ti0, st\<lparr>tests := tests st @ [(key, ti0)]\<rparr>)"
    unfolding ti0_def by (rule recordTestInfo_new [OF new])
  have one: "\<not> 1 < length (prompts_T ti0)" by (simp add: ti0_def)
  have src: "testSource ti0 = key" by (simp add: ti0_def)
  show ?thesis
    unfolding validateCompletion_def Let_def key [symmetric] rec
    using one src fresh
    by (simp add: recordTestResult_def Let_def update_append_last res_def validated_def
        map_add_def new)
qed

lemma foldl_invariant:
  assumes "I acc" and "\<And>acc x. I acc \<Longrightarrow> x \<in> set xs \<Longrightarrow> I (f acc x)"
  shows "I (foldl f acc xs)"
  using assms by (induction xs arbitrary: acc) auto

lemma pushRefined_frame: "sameCollector st0 (snd acc) \<Longrightarrow> sameCollector st0 (snd (pushRefined a tid r acc q))"
  by (cases acc) (simp add: pushRefined_def sameCollector_def Let_def)

lemma refineWith_frame: "sameCollector st0 (snd acc) \<Longrightarrow> sameCollector st0 (snd (refineWith a c ti acc r))"
  unfolding refineWith_def
  by (rule foldl_invariant [where I = "\<lambda>acc. sameCollector st0 (snd acc)"]) (auto intro: pushRefined_frame)

lemma refinePrompts_frame: "sameCollector st0 (snd acc) \<Longrightarrow> sameCollector st0 (snd (refinePrompts a c ti acc))"
  unfolding refinePrompts_def
  by (rule foldl_invariant [where I = "\<lambda>acc. sameCollector st0 (snd acc)"]) (auto intro: refineWith_frame)

lemma refinePrompts_tests: "tests (snd (refinePrompts a c ti (wl, st))) = tests st"
  using refinePrompts_frame [of st "(wl, st)" a c ti] by (simp add: sameCollector_def)

lemma collector_ok_update:
  assumes ok: "collector_ok st" and src: "testSource ti = key" and ne: "prompts_T ti \<noteq> []"
    and t: "tests st' = AList.update key ti (tests st)"
  shows "collector_ok st'"
proof -
  have "distinct (map fst (tests st'))"
    using ok t by (simp add: collector_ok_def distinct_update)
  moreover have "\<forall>entry\<in>set (tests st'). testSource (snd entry) = fst entry \<and> prompts_T (snd entry) \<noteq> []"
  proof
    fix entry assume "entry \<in> set (tests st')"
    with t set_update_subset [of key ti "tests st"] have "entry = (key, ti) \<or> entry \<in> set (tests st)"
      by auto
    with ok src ne show "testSource (snd entry) = fst entry \<and> prompts_T (snd entry) \<noteq> []"
      by (auto simp: collector_ok_def)
  qed
  ultimately show ?thesis by (simp add: collector_ok_def)
qed

lemma collector_ok_validateCompletion:
  assumes ok: "collector_ok st"
  shows "collector_ok (snd (validateCompletion gen a c T st))"
proof -
  define key where "key = (case completeTest (parses gen) (heap st ! a) c True of
                             Some src \<Rightarrow> src | None \<Rightarrow> c)"
  show ?thesis
  proof (cases "map_of (tests st) key")
    case None
    note eq = validateCompletion_new [OF key_def None, of T]
    have fresh: "key \<notin> fst ` set (tests st)" using None by (rule map_of_None_fresh)
    show ?thesis
      by (rule collector_ok_update [OF ok, where key = key and ti = "fst (validateCompletion gen a c T st)"])
         (simp_all add: eq update_fresh [OF fresh])
  next
    case (Some ti)
    then have mem: "(key, ti) \<in> set (tests st)" by (rule map_of_SomeD)
    with ok have ne: "prompts_T ti \<noteq> []" and src: "testSource ti = key"
      by (auto simp: collector_ok_def)
    note eq = validateCompletion_known [OF key_def Some ne, of T]
    show ?thesis
      by (rule collector_ok_update [OF ok, where key = key and ti = "fst (validateCompletion gen a c T st)"])
         (simp_all add: eq src)
  qed
qed

lemma collector_ok_cong: "tests st' = tests st \<Longrightarrow> collector_ok st' = collector_ok st"
  by (simp add: collector_ok_def)

lemma collector_ok_completionStep:
  assumes "collector_ok (snd (snd acc))"
  shows "collector_ok (snd (snd (completionStep gen a T acc c)))"
proof -
  obtain fl wl st where acc: "acc = (fl, wl, st)" by (cases acc) auto
  obtain ti st1 where v: "validateCompletion gen a c T st = (ti, st1)" by (cases "validateCompletion gen a c T st") auto
  obtain wl' st2 where r: "refinePrompts a c ti (wl, st1) = (wl', st2)" by (cases "refinePrompts a c ti (wl, st1)") auto
  have "collector_ok st1" using collector_ok_validateCompletion [of st gen a c T] assms acc v by simp
  moreover have "tests st2 = tests st1" using refinePrompts_tests [of a c ti wl st1] r by simp
  ultimately have "collector_ok st2" using collector_ok_cong [of st2 st1] by simp
  then show ?thesis by (simp add: completionStep_def acc v r)
qed

lemma collector_ok_loopBody:
  assumes "collector_ok st"
  shows "collector_ok (snd (snd (snd (loopBody gen T (wl, fl, gp, st)))))"
proof (cases "map_of gp (assemble (parses gen) (heap st ! last wl))")
  case (Some prev)
  then show ?thesis using assms by (simp add: loopBody_def Let_def collector_ok_def)
next
  case None
  define text0 where "text0 = assemble (parses gen) (heap st ! last wl)"
  define st1 where "st1 = st\<lparr>modelLog := modelLog st @ [(text0, T)]\<rparr>"
  define cs where "cs = completions gen (modelLog st) text0 T"
  define res where "res = foldl (completionStep gen (last wl) T) (fl, butlast wl, st1) cs"
  have "collector_ok st1" using assms by (simp add: st1_def collector_ok_def)
  then have "collector_ok (snd (snd res))"
    unfolding res_def
    by (intro foldl_invariant [where I = "\<lambda>acc. collector_ok (snd (snd acc))"])
       (auto intro: collector_ok_completionStep)
  moreover have "loopBody gen T (wl, fl, gp, st) =
      (fst (snd res), fst res, AList.update text0 (last wl) gp, recordPromptInfo (last wl) T cs (snd (snd res)))"
    using None
    by (simp add: loopBody_def Let_def text0_def [symmetric] st1_def [symmetric] cs_def [symmetric]
          res_def [symmetric] split: prod.splits)
  ultimately show ?thesis by (simp add: recordPromptInfo_def Let_def collector_ok_def)
qed


lemma collector_ok_worklistLoop:
  assumes "worklistLoop gen T (wl, fl, gp, st) = Some res" and "collector_ok st"
  shows "collector_ok (snd res)"
proof -
  have "\<exists>gp' :: (string \<times> ref) list. collector_ok (snd res)"
  proof (rule worklistLoop_invariant [where I = "\<lambda>wl fl gp st. collector_ok st", OF assms(1)])
    show "collector_ok st" by (rule assms(2))
  next
    fix wl fl gp wl' fl' gp' and s s' :: "'a Engine"
    assume "collector_ok s" and "loopBody gen T (wl, fl, gp, s) = (wl', fl', gp', s')"
    then show "collector_ok s'"
      using collector_ok_loopBody [of s gen T wl fl gp] by simp
  qed
  then show ?thesis by simp
qed

lemma collector_ok_processTemperature:
  assumes "processTemperature gen f T st = Some res" and "collector_ok st"
  shows "collector_ok (snd res)"
proof -
  define st0 where "st0 = st\<lparr>heap := heap st @ [newPrompt f
     (case snippetMap gen (functionName f) of Some sn \<Rightarrow> sn | None \<Rightarrow> []) defaultPromptOptions]\<rparr>"
  have "collector_ok st0" using assms(2) by (simp add: st0_def collector_ok_def)
  moreover have "worklistLoop gen T ([length (heap st)], False, [], st0) = Some res"
    using assms(1) by (simp add: processTemperature_def Let_def st0_def)
  ultimately show ?thesis by (rule collector_ok_worklistLoop [rotated])
qed

lemma temperatureLoop_rule:
  assumes "temperatureLoop gen f Ts st = Some st'" and "I st"
    and "\<And>T s res. I s \<Longrightarrow> processTemperature gen f T s = Some res \<Longrightarrow> I (snd res)"
  shows "I st'"
  using assms(1,2)
proof (induction Ts arbitrary: st)
  case Nil
  then show ?case by simp
next
  case (Cons T Ts)
  from Cons.prems(1) obtain fl s where p: "processTemperature gen f T st = Some (fl, s)"
    by (auto split: option.splits)
  with assms(3) [OF Cons.prems(2)] have "I s" by fastforce
  show ?case
  proof (cases fl)
    case True
    with Cons.prems(1) p \<open>I s\<close> show ?thesis by simp
  next
    case False
    with Cons.prems(1) p have "temperatureLoop gen f Ts s = Some st'" by simp
    from Cons.IH [OF this \<open>I s\<close>] show ?thesis .
  qed
qed

lemma experimentLoop_rule:
  assumes "experimentLoop gen now deadline reads fs st = Some st'" and "I st"
    and "\<And>f s s'. I s \<Longrightarrow> generateAndValidateTests gen f s = Some s' \<Longrightarrow> I s'"
  shows "I st'"
  using assms(1,2)
proof (induction fs arbitrary: st reads)
  case Nil
  then show ?case by simp
next
  case (Cons f fs)
  show ?case
  proof (cases "now reads > deadline")
    case True
    with Cons.prems show ?thesis by simp
  next
    case False
    with Cons.prems(1) obtain s where g: "generateAndValidateTests gen f st = Some s"
      and rest: "experimentLoop gen now deadline (Suc reads) fs s = Some st'"
      by (auto split: option.splits)
    from assms(3) [OF Cons.prems(2) g] have "I s" .
    from Cons.IH [OF rest this] show ?thesis .
  qed
qed

lemma collector_ok_generate:
  assumes "generateAndValidateTests gen f st = Some st'" and "collector_ok st"
  shows "collector_ok st'"
  using assms collector_ok_processTemperature
  unfolding generateAndValidateTests_def
  by (elim temperatureLoop_rule [where I = collector_ok]) auto

lemma collector_ok_runExperiment:
  assumes "runExperiment fs gen now cov limit st = Some st'" and "collector_ok st"
  shows "collector_ok st'"
proof -
  from assms(1) obtain s where e: "experimentLoop gen now (now 0 + limit) 1 fs st = Some s"
    and st': "st' = recordCoverageInfo (cov (validatorLog s)) s"
    by (auto simp: runExperiment_def Let_def split: option.splits)
  have "collector_ok s"
    using e assms(2) collector_ok_generate
    by (elim experimentLoop_rule [where I = collector_ok]) auto
  then show ?thesis by (simp add: st' recordCoverageInfo_def collector_ok_def)
qed

lemma collector_ok_empty: "collector_ok (emptyEngine c)"
  by (simp add: collector_ok_def emptyEngine_def)

lemma collector_ok_sources: "collector_ok st \<Longrightarrow> distinct (testSources st)"
proof -
  assume ok: "collector_ok st"
  then have "map (\<lambda>entry. testSource (snd entry)) (tests st) = map fst (tests st)"
    by (intro map_cong) (auto simp: collector_ok_def)
  then have "testSources st = map fst (tests st)" by (simp only: testSources_def)
  moreover have "distinct (map fst (tests st))" using ok by (simp add: collector_ok_def)
  ultimately show ?thesis by simp
qed

text \<open>
  Claim C1. Starting from a collector whose test infos are stored under their own
  sources, every run of \<open>generateAndValidateTests\<close> and of \<open>runExperiment\<close> that
  returns leaves the test infos with pairwise different sources, and so does
  \<open>recordTestInfo\<close>; called with a source already recorded, \<open>recordTestInfo\<close> returns
  the existing test info with the prompt appended to its prompts, and creates no
  second record.
\<close>

theorem test_source_uniqueness:
  assumes ok: "collector_ok st"
  shows "(\<forall>st'. generateAndValidateTests gen f st = Some st' \<longrightarrow>
            collector_ok st' \<and> distinct (testSources st')) \<and>
         (\<forall>st'. runExperiment fs gen now cov limit st = Some st' \<longrightarrow>
            collector_ok st' \<and> distinct (testSources st')) \<and>
         distinct (testSources (snd (recordTestInfo source prompt apiName st))) \<and>
         (\<forall>known. map_of (tests st) source = Some known \<longrightarrow>
            fst (recordTestInfo source prompt apiName st) =
              known\<lparr>prompts_T := prompts_T known @ [prompt]\<rparr> \<and>
            testSources (snd (recordTestInfo source prompt apiName st)) = testSources st)"
proof (intro conjI allI impI)
  fix st' assume "generateAndValidateTests gen f st = Some st'"
  from collector_ok_generate [OF this ok]
  show "collector_ok st'" and "distinct (testSources st')" by (simp_all add: collector_ok_sources)
next
  fix st' assume "runExperiment fs gen now cov limit st = Some st'"
  from collector_ok_runExperiment [OF this ok]
  show "collector_ok st'" and "distinct (testSources st')" by (simp_all add: collector_ok_sources)
next
  fix known assume known: "map_of (tests st) source = Some known"
  note eq = recordTestInfo_known [OF known, of prompt apiName]
  show "fst (recordTestInfo source prompt apiName st) =
          known\<lparr>prompts_T := prompts_T known @ [prompt]\<rparr>"
    by (simp add: eq)
  show "testSources (snd (recordTestInfo source prompt apiName st)) = testSources st"
    unfolding testSources_def
    using update_known_map [OF known, of testSource "known\<lparr>prompts_T := prompts_T known @ [prompt]\<rparr>"]
    by (simp add: eq)
next
  show "distinct (testSources (snd (recordTestInfo source prompt apiName st)))"
  proof (cases "map_of (tests st) source")
    case None
    have fresh: "source \<notin> fst ` set (tests st)" using None by (rule map_of_None_fresh)
    have "collector_ok (snd (recordTestInfo source prompt apiName st))"
      by (rule collector_ok_update [OF ok, where key = source
            and ti = "fst (recordTestInfo source prompt apiName st)"])
         (simp_all add: recordTestInfo_new [OF None] update_fresh [OF fresh])
    then show ?thesis by (rule collector_ok_sources)
  next
    case (Some known)
    then have "(source, known) \<in> set (tests st)" by (rule map_of_SomeD)
    with ok have src: "testSource known = source" by (auto simp: collector_ok_def)
    have "collector_ok (snd (recordTestInfo source prompt apiName st))"
      by (rule collector_ok_update [OF ok, where key = source
            and ti = "fst (recordTestInfo source prompt apiName st)"])
         (simp_all add: recordTestInfo_known [OF Some] src)
    then show ?thesis by (rule collector_ok_sources)
  qed
qed

text \<open>
  Claim C2. \<open>validateCompletion(p, c, T)\<close> records the test under the completed source,
  or under \<open>c\<close> where completion fails. If that key was recorded before, the existing
  test info is returned with the prompt appended and nothing else changed: its outcome
  stays and the validator gets no request. Otherwise the outcome recorded is
  \<open>Failed "Empty test"\<close> for the empty completion, \<open>Failed "Invalid syntax"\<close> where
  \<open>completeTest\<close> gives nothing, and the answer of the validator on the completed
  source in every other case.
\<close>

theorem validateCompletion_postcondition:
  assumes ok: "collector_ok st"
  shows "let source = completeTest (parses gen) (heap st ! prompt) completion True;
             key = (case source of Some src \<Rightarrow> src | None \<Rightarrow> completion);
             (testInfo, st') = validateCompletion gen prompt completion T st
         in (case map_of (tests st) key of
               Some known \<Rightarrow>
                 testInfo = known\<lparr>prompts_T := prompts_T known @ [prompt]\<rparr> \<and>
                 validatorLog st' = validatorLog st \<and>
                 tests st' = AList.update key testInfo (tests st)
             | None \<Rightarrow>
                 outcome testInfo =
                   (if completion = []
                    then FAILED \<lparr>message = ''Empty test'', code = None, stack = None\<rparr>
                    else if source = None
                    then FAILED \<lparr>message = ''Invalid syntax'', code = None, stack = None\<rparr>
                    else validateTest gen (validatorLog st) (testName testInfo) key) \<and>
                 testSource testInfo = key \<and> prompts_T testInfo = [prompt] \<and>
                 tests st' = tests st @ [(key, testInfo)] \<and>
                 validatorLog st' =
                   (if completion \<noteq> [] \<and> source \<noteq> None
                    then validatorLog st @ [(testName testInfo, key)] else validatorLog st))"
proof -
  define key where "key = (case completeTest (parses gen) (heap st ! prompt) completion True of
                             Some src \<Rightarrow> src | None \<Rightarrow> completion)"
  show ?thesis
  proof (cases "map_of (tests st) key")
    case None
    from validateCompletion_new [OF key_def None, of T] None show ?thesis
      by (simp add: Let_def key_def [symmetric])
  next
    case (Some ti)
    then have "(key, ti) \<in> set (tests st)" by (rule map_of_SomeD)
    with ok have "prompts_T ti \<noteq> []" by (auto simp: collector_ok_def)
    from validateCompletion_known [OF key_def Some this, of T] Some show ?thesis
      by (simp add: Let_def key_def [symmetric])
  qed
qed

subsection \<open>Instances of C1 and C2\<close>

theorem test_source_uniqueness_witness:
  "collector_ok oneTestEngine \<and>
   generateAndValidateTests failingGenerator exFunction oneTestEngine \<noteq> None \<and>
   distinct (testSources (the (generateAndValidateTests failingGenerator exFunction oneTestEngine))) \<and>
   map_of (tests oneTestEngine) ''x'' = Some exTestInfo \<and>
   fst (recordTestInfo ''x'' 1 ''p.f'' oneTestEngine) = exTestInfo\<lparr>prompts_T := [0, 1]\<rparr> \<and>
   testSources (snd (recordTestInfo ''x'' 1 ''p.f'' oneTestEngine)) = [''x'']"
proof -
  have ok: "collector_ok oneTestEngine"
    by (simp add: collector_ok_def oneTestEngine_def exTestInfo_def)
  have run: "generateAndValidateTests failingGenerator exFunction oneTestEngine \<noteq> None"
    by code_simp
  have known: "map_of (tests oneTestEngine) ''x'' = Some exTestInfo"
    by (simp add: oneTestEngine_def)
  have p: "prompts_T exTestInfo = [0]" and s: "testSources oneTestEngine = [''x'']"
    by (simp_all add: exTestInfo_def testSources_def oneTestEngine_def)
  note inst = test_source_uniqueness [OF ok, of failingGenerator exFunction "[]" tickingClock
      noCoverage 0 "''x''" 1 "''p.f''"]
  from inst run have "distinct (testSources (the (generateAndValidateTests failingGenerator exFunction oneTestEngine)))"
    by auto
  moreover from inst known p s have "fst (recordTestInfo ''x'' 1 ''p.f'' oneTestEngine) = exTestInfo\<lparr>prompts_T := [0, 1]\<rparr>"
    and "testSources (snd (recordTestInfo ''x'' 1 ''p.f'' oneTestEngine)) = [''x'']"
    by simp_all
  ultimately show ?thesis using ok run known by simp
qed

theorem validateCompletion_postcondition_witness:
  "collector_ok oneTestEngine \<and>
   fst (validateCompletion rejectingGenerator 0 ''x'' 0 oneTestEngine) = exTestInfo\<lparr>prompts_T := [0, 0]\<rparr> \<and>
   validatorLog (snd (validateCompletion rejectingGenerator 0 ''x'' 0 oneTestEngine)) = [] \<and>
   outcome (fst (validateCompletion rejectingGenerator 0 ''y'' 0 oneTestEngine)) =
     FAILED \<lparr>message = ''Invalid syntax'', code = None, stack = None\<rparr> \<and>
   outcome (fst (validateCompletion rejectingGenerator 0 [] 0 oneTestEngine)) =
     FAILED \<lparr>message = ''Empty test'', code = None, stack = None\<rparr> \<and>
   outcome (fst (validateCompletion passingGenerator 0 ''ok();'' 0 oneTestEngine)) = PASSED None None"
proof -
  have ok: "collector_ok oneTestEngine"
    by (simp add: collector_ok_def oneTestEngine_def exTestInfo_def)
  have none: "completeTest (parses rejectingGenerator) (heap oneTestEngine ! 0) c True = None" for c
    by (simp add: completeTest_def closeBrackets_def rejectingGenerator_def rejectAll_def
          split: option.splits)
  have some: "completeTest (parses passingGenerator) (heap oneTestEngine ! 0) ''ok();'' True \<noteq> None"
    by code_simp
  have fresh: "map_of (tests oneTestEngine) (the (completeTest (parses passingGenerator) (heap oneTestEngine ! 0) ''ok();'' True)) = None"
    by code_simp
  have t: "tests oneTestEngine = [(''x'', exTestInfo)]" "validatorLog oneTestEngine = []"
    "prompts_T exTestInfo = [0]"
    by (simp_all add: oneTestEngine_def exTestInfo_def)
  from validateCompletion_postcondition [OF ok, of rejectingGenerator 0 "''x''" 0]
  have a: "fst (validateCompletion rejectingGenerator 0 ''x'' 0 oneTestEngine) = exTestInfo\<lparr>prompts_T := [0, 0]\<rparr> \<and>
   validatorLog (snd (validateCompletion rejectingGenerator 0 ''x'' 0 oneTestEngine)) = []"
    by (simp add: none t Let_def split: prod.splits)
  from validateCompletion_postcondition [OF ok, of rejectingGenerator 0 "''y''" 0]
  have b: "outcome (fst (validateCompletion rejectingGenerator 0 ''y'' 0 oneTestEngine)) =
     FAILED \<lparr>message = ''Invalid syntax'', code = None, stack = None\<rparr>"
    by (simp add: none t Let_def split: prod.splits)
  from validateCompletion_postcondition [OF ok, of rejectingGenerator 0 "[]" 0]
  have c: "outcome (fst (validateCompletion rejectingGenerator 0 [] 0 oneTestEngine)) =
     FAILED \<lparr>message = ''Empty test'', code = None, stack = None\<rparr>"
    by (simp add: none t Let_def split: prod.splits)
  from validateCompletion_postcondition [OF ok, of passingGenerator 0 "''ok();''" 0] some fresh
  have d: "outcome (fst (validateCompletion passingGenerator 0 ''ok();'' 0 oneTestEngine)) = PASSED None None"
    by (auto simp add: Let_def passingGenerator_def alwaysPasses_def split: prod.splits)
  from ok a b c d show ?thesis by simp
qed


subsection \<open>Refinement\<close>

lemma refinedFrom_props:
  assumes "refinedFrom a p q"
  shows "apiFunction q = apiFunction p" and "usageSnippets q = usageSnippets p"
    and "\<exists>pr. provenance q = [pr] \<and> originalPrompt pr = a"
    and "isRetryPrompt q \<Longrightarrow> \<not> isRetryPrompt p"
    and "rank q < rank p"
proof -
  from assms obtain r c res tid q0 where q0: "q0 \<in> set (refine r p c res)"
    and q: "q = withProvenance [\<lparr>originalPrompt = a, testId = tid, refiner = name r\<rparr>] q0"
    by (auto simp: refinedFrom_def)
  have base: "apiFunction q0 = apiFunction p \<and> usageSnippets q0 = usageSnippets p \<and>
        provenance q0 = [] \<and> (isRetryPrompt q0 \<longrightarrow> \<not> isRetryPrompt p) \<and> rank q0 < rank p"
  proof (cases r)
    case SnippetIncluder
    with q0 show ?thesis
      by (auto simp: newPrompt_def isRetryPrompt_def rank_def split: if_splits)
  next
    case RetryWithError
    with q0 show ?thesis
      by (cases res) (auto simp: newRetryPrompt_def isRetryPrompt_def rank_def split: if_splits)
  next
    case DocCommentIncluder
    with q0 show ?thesis
      by (auto simp: newPrompt_def isRetryPrompt_def rank_def split: if_splits)
  next
    case FunctionBodyIncluder
    with q0 show ?thesis
      by (auto simp: newPrompt_def isRetryPrompt_def rank_def split: if_splits)
  qed
  have same: "apiFunction q = apiFunction q0" "usageSnippets q = usageSnippets q0"
    "isRetryPrompt q = isRetryPrompt q0" "rank q = rank q0"
    "provenance q = provenance q0 @ [\<lparr>originalPrompt = a, testId = tid, refiner = name r\<rparr>]"
    by (simp_all add: q withProvenance_def isRetryPrompt_def rank_def)
  show "apiFunction q = apiFunction p" "usageSnippets q = usageSnippets p"
    "rank q < rank p" using base same by simp_all
  show "\<exists>pr. provenance q = [pr] \<and> originalPrompt pr = a" using base same by simp
  show "isRetryPrompt q \<Longrightarrow> \<not> isRetryPrompt p" using base same by simp
qed

lemma grown_refl: "grown a p acc acc"
  by (simp add: grown_def)

lemma grown_trans:
  assumes "grown a p acc acc'" and "grown a p acc' acc''"
  shows "grown a p acc acc''"
proof -
  from assms(1) obtain n1 where 1: "heap (snd acc') = heap (snd acc) @ n1"
    "fst acc' = fst acc @ [length (heap (snd acc))..<length (heap (snd acc)) + length n1]"
    "\<forall>q\<in>set n1. refinedFrom a p q" "prompts (snd acc') = prompts (snd acc)"
    "modelLog (snd acc') = modelLog (snd acc)"
    by (auto simp: grown_def)
  from assms(2) obtain n2 where 2: "heap (snd acc'') = heap (snd acc') @ n2"
    "fst acc'' = fst acc' @ [length (heap (snd acc'))..<length (heap (snd acc')) + length n2]"
    "\<forall>q\<in>set n2. refinedFrom a p q" "prompts (snd acc'') = prompts (snd acc')"
    "modelLog (snd acc'') = modelLog (snd acc')"
    by (auto simp: grown_def)
  have "[length (heap (snd acc))..<length (heap (snd acc)) + length n1] @
        [length (heap (snd acc)) + length n1..<length (heap (snd acc)) + length n1 + length n2] =
        [length (heap (snd acc))..<length (heap (snd acc)) + length (n1 @ n2)]"
    using upt_add_eq_append [of "length (heap (snd acc))" "length (heap (snd acc)) + length n1" "length n2"]
    by (simp add: add.assoc)
  with 1 2 show ?thesis
    unfolding grown_def
    by (intro exI [of _ "n1 @ n2"]) (auto simp add: add.assoc)
qed

lemma grown_pushRefined:
  assumes "q0 \<in> set (refine r p c res)"
  shows "grown a p acc (pushRefined a tid r acc q0)"
proof -
  obtain wl st where acc: "acc = (wl, st)" by (cases acc) auto
  have "refinedFrom a p (withProvenance [\<lparr>originalPrompt = a, testId = tid, refiner = name r\<rparr>] q0)"
    unfolding refinedFrom_def using assms by blast
  then show ?thesis
    unfolding grown_def acc pushRefined_def
    by (intro exI [of _ "[withProvenance [\<lparr>originalPrompt = a, testId = tid, refiner = name r\<rparr>] q0]"])
       (simp add: Let_def)
qed

lemma grown_foldl:
  assumes "grown a p acc0 acc" and "\<And>acc x. grown a p acc0 acc \<Longrightarrow> x \<in> set xs \<Longrightarrow> grown a p acc (g acc x)"
  shows "grown a p acc0 (foldl g acc xs)"
  using assms
proof (induction xs arbitrary: acc)
  case Nil
  then show ?case by simp
next
  case (Cons x xs)
  have "grown a p acc (g acc x)" using Cons.prems by simp
  with Cons.prems(1) have "grown a p acc0 (g acc x)" by (rule grown_trans)
  then show ?case using Cons.IH [of "g acc x"] Cons.prems(2) by simp
qed

lemma grown_heap_nth:
  assumes "grown a p acc0 acc" and "b < length (heap (snd acc0))"
  shows "heap (snd acc) ! b = heap (snd acc0) ! b"
  using assms by (auto simp: grown_def nth_append)

lemma grown_refineWith:
  assumes "grown a p acc0 acc" and "a < length (heap (snd acc0))" and "p = heap (snd acc0) ! a"
  shows "grown a p acc (refineWith a c ti acc r)"
proof -
  have p: "heap (snd acc) ! a = p" using grown_heap_nth [OF assms(1,2)] assms(3) by simp
  show ?thesis
    unfolding refineWith_def p
    by (rule grown_foldl [OF grown_refl]) (auto intro: grown_pushRefined)
qed

lemma grown_refinePrompts:
  assumes "a < length (heap (snd acc))" and "p = heap (snd acc) ! a"
  shows "grown a p acc (refinePrompts a c ti acc)"
  unfolding refinePrompts_def
  by (rule grown_foldl [OF grown_refl]) (auto intro: grown_refineWith assms)


lemma validateCompletion_heap:
  "heap (snd (validateCompletion gen a c T st)) = heap st \<and>
   prompts (snd (validateCompletion gen a c T st)) = prompts st \<and>
   modelLog (snd (validateCompletion gen a c T st)) = modelLog st \<and>
   coverageSummary (snd (validateCompletion gen a c T st)) = coverageSummary st"
proof -
  define key where "key = (case completeTest (parses gen) (heap st ! a) c True of
                             Some src \<Rightarrow> src | None \<Rightarrow> c)"
  obtain ti st1 where r: "recordTestInfo key a (accessPath (apiFunction (heap st ! a))) st = (ti, st1)"
    by (cases "recordTestInfo key a (accessPath (apiFunction (heap st ! a))) st") auto
  then have "heap st1 = heap st \<and> prompts st1 = prompts st \<and> modelLog st1 = modelLog st \<and>
     coverageSummary st1 = coverageSummary st"
    by (auto simp: recordTestInfo_def Let_def split: option.splits)
  then show ?thesis
    by (simp add: validateCompletion_def Let_def key_def [symmetric] r recordTestResult_def)
qed

lemma grown_completionStep:
  assumes "a < length (heap st)" and "p = heap st ! a"
  shows "grown a p (wl, st) (snd (completionStep gen a T (fl, wl, st) c))"
proof -
  obtain ti st1 where v: "validateCompletion gen a c T st = (ti, st1)"
    by (cases "validateCompletion gen a c T st") auto
  with validateCompletion_heap [of gen a c T st]
  have h: "heap st1 = heap st" "prompts st1 = prompts st" "modelLog st1 = modelLog st" by simp_all
  have 1: "grown a p (wl, st) (wl, st1)"
    unfolding grown_def by (intro exI [of _ "[]"]) (simp add: h)
  have 2: "grown a p (wl, st1) (refinePrompts a c ti (wl, st1))"
    by (rule grown_refinePrompts) (simp_all add: h assms)
  have "snd (completionStep gen a T (fl, wl, st) c) = refinePrompts a c ti (wl, st1)"
    by (simp add: completionStep_def v split: prod.splits)
  with grown_trans [OF 1 2] show ?thesis by simp
qed

lemma grown_completions:
  assumes "a < length (heap st)" and "p = heap st ! a"
  shows "grown a p (wl, st) (snd (foldl (completionStep gen a T) (fl, wl, st) cs))"
proof -
  have "grown a p (wl, st) (snd acc) \<Longrightarrow>
        grown a p (wl, st) (snd (foldl (completionStep gen a T) acc cs))" for acc
  proof (induction cs arbitrary: acc)
    case Nil
    then show ?case by simp
  next
    case (Cons c cs)
    obtain fl' wl' st' where acc: "acc = (fl', wl', st')" by (cases acc) auto
    from Cons.prems acc have g: "grown a p (wl, st) (wl', st')" by simp
    from grown_heap_nth [OF g] assms have "heap st' ! a = p" by simp
    moreover from g assms(1) have "a < length (heap st')" by (auto simp: grown_def)
    ultimately have "grown a p (wl', st') (snd (completionStep gen a T (fl', wl', st') c))"
      by (intro grown_completionStep) simp_all
    with g have "grown a p (wl, st) (snd (completionStep gen a T acc c))"
      unfolding acc by (rule grown_trans)
    from Cons.IH [OF this] show ?case by simp
  qed
  from this [of "(fl, wl, st)"] show ?thesis by (simp add: grown_refl)
qed

lemma loopBody_duplicate:
  assumes "map_of gp (assemble (parses gen) (heap st ! last wl)) = Some prev"
  shows "loopBody gen T (wl, fl, gp, st) =
           (butlast wl, fl, gp,
            st\<lparr>heap := (heap st)[prev := withProvenance (provenance (heap st ! last wl))
                                            (heap st ! prev)]\<rparr>)"
  using assms by (simp add: loopBody_def Let_def)

lemma loopBody_fresh:
  assumes none: "map_of gp (assemble (parses gen) (heap st ! last wl)) = None"
    and valid: "last wl < length (heap st)"
    and body: "loopBody gen T (wl, fl, gp, st) = (wl', fl', gp', st')"
  shows "gp' = AList.update (assemble (parses gen) (heap st ! last wl)) (last wl) gp \<and>
         (\<exists>news cs.
            heap st' = heap st @ news \<and>
            wl' = butlast wl @ [length (heap st)..<length (heap st) + length news] \<and>
            (\<forall>q\<in>set news. refinedFrom (last wl) (heap st ! last wl) q) \<and>
            prompts st' = AList.update (last wl)
              \<lparr>prompt_P = last wl, id_P = length (prompts st),
               file_P = ''prompt_'' @ showNat (length (prompts st)) @ ''.js'',
               temperature = T, completions_P = cs\<rparr> (prompts st) \<and>
            modelLog st' = modelLog st @ [(assemble (parses gen) (heap st ! last wl), T)])"
proof -
  define a where "a = last wl"
  define text0 where "text0 = assemble (parses gen) (heap st ! a)"
  define st1 where "st1 = st\<lparr>modelLog := modelLog st @ [(text0, T)]\<rparr>"
  define cs where "cs = completions gen (modelLog st) text0 T"
  define res where "res = foldl (completionStep gen a T) (fl, butlast wl, st1) cs"
  have eq: "loopBody gen T (wl, fl, gp, st) =
      (fst (snd res), fst res, AList.update text0 a gp, recordPromptInfo a T cs (snd (snd res)))"
    using none
    by (simp add: loopBody_def Let_def a_def [symmetric] text0_def [symmetric] st1_def [symmetric]
          cs_def [symmetric] res_def [symmetric] split: prod.splits)
  have "grown a (heap st ! a) (butlast wl, st1) (snd res)"
    unfolding res_def by (rule grown_completions) (simp_all add: st1_def valid [folded a_def])
  then obtain news where g: "heap (snd (snd res)) = heap st @ news"
    "fst (snd res) = butlast wl @ [length (heap st)..<length (heap st) + length news]"
    "\<forall>q\<in>set news. refinedFrom a (heap st ! a) q"
    "prompts (snd (snd res)) = prompts st" "modelLog (snd (snd res)) = modelLog st @ [(text0, T)]"
    by (auto simp: grown_def st1_def)
  from body eq have r: "wl' = fst (snd res)" "gp' = AList.update text0 a gp"
    "st' = recordPromptInfo a T cs (snd (snd res))" by simp_all
  show ?thesis
    unfolding a_def [symmetric] text0_def [symmetric]
    using g r
    by (intro conjI exI [of _ news] exI [of _ cs])
       (simp_all add: recordPromptInfo_def Let_def)
qed


subsection \<open>The heap under the loop\<close>

lemma assemble_cong:
  assumes "apiFunction p = apiFunction q" "usageSnippets p = usageSnippets q"
    "options p = options q" "retry p = retry q"
  shows "assemble parser p = assemble parser q"
proof -
  have "assemblePrompt p = assemblePrompt q" "testHeader p = testHeader q"
    using assms
    by (simp_all add: assemblePrompt_def importsHeader_def importsTemplate_def assembleUsageSnippets_def
          docCommentSection_def signatureSection_def functionBody_def suiteHeader_def
          testHeader_def)
  then show ?thesis using assms(4)
    by (cases "retry q") (auto simp add: assemble_def assembleRetry_def)
qed

lemma withProvenance_same:
  "apiFunction (withProvenance prs p) = apiFunction p"
  "isRetryPrompt (withProvenance prs p) = isRetryPrompt p"
  "provenance (withProvenance prs p) = provenance p @ prs"
  by (simp_all add: withProvenance_def isRetryPrompt_def)

lemma assemble_withProvenance: "assemble parser (withProvenance prs p) = assemble parser p"
  by (rule assemble_cong) (simp_all add: withProvenance_def)

lemma merged_nth:
  assumes "b < length h"
  shows "apiFunction (h[prev := withProvenance prs (h ! prev)] ! b) = apiFunction (h ! b)"
    and "isRetryPrompt (h[prev := withProvenance prs (h ! prev)] ! b) = isRetryPrompt (h ! b)"
    and "assemble parser (h[prev := withProvenance prs (h ! prev)] ! b) = assemble parser (h ! b)"
    and "provenance (h[prev := withProvenance prs (h ! prev)] ! b) =
           provenance (h ! b) @ (if b = prev then prs else [])"
  using assms by (cases "b = prev"; simp add: withProvenance_same assemble_withProvenance)+

lemma loop_ok_loopBody:
  assumes ok: "loop_ok gen f wl gp st" and pok: "prompts_ok st" and ne: "wl \<noteq> []"
    and body: "loopBody gen T (wl, fl, gp, st) = (wl', fl', gp', st')"
  shows "loop_ok gen f wl' gp' st' \<and> prompts_ok st'"
proof -
  define a where "a = last wl"
  define text0 where "text0 = assemble (parses gen) (heap st ! a)"
  have a_in: "a \<in> set wl" using ne by (simp add: a_def)
  with ok have a: "a < length (heap st)" "apiFunction (heap st ! a) = f"
    "a \<notin> fst ` set (prompts st)"
    by (auto simp: loop_ok_def)
  have dist: "distinct wl" using ok by (simp add: loop_ok_def)
  have wl: "wl = butlast wl @ [a]" using ne by (simp add: a_def)
  have a_notin: "a \<notin> set (butlast wl)"
    using dist wl by (metis distinct_append disjoint_iff list.set_intros(1) distinct.simps(2) not_distinct_conv_prefix)
  have bl: "\<forall>b\<in>set (butlast wl). b < length (heap st) \<and> apiFunction (heap st ! b) = f \<and>
      b \<notin> fst ` set (prompts st)"
    using ok by (auto simp: loop_ok_def dest: in_set_butlastD)
  have gpok: "\<forall>entry\<in>set gp. snd entry < length (heap st) \<and>
         apiFunction (heap st ! snd entry) = f \<and>
         assemble (parses gen) (heap st ! snd entry) = fst entry"
    using ok by (simp add: loop_ok_def)
  show ?thesis
  proof (cases "map_of gp text0")
    case (Some prev)
    from loopBody_duplicate [OF Some [unfolded text0_def a_def], of T fl] body
    have r: "wl' = butlast wl" "gp' = gp"
      "st' = st\<lparr>heap := (heap st)[prev := withProvenance (provenance (heap st ! a)) (heap st ! prev)]\<rparr>"
      by (simp_all add: a_def)
    have "loop_ok gen f wl' gp' st'"
      unfolding loop_ok_def r
      using bl gpok dist by (auto simp: merged_nth distinct_butlast)
    moreover have "prompts_ok st'"
      using pok by (simp add: prompts_ok_def r)
    ultimately show ?thesis by simp
  next
    case None
    from loopBody_fresh [OF None [unfolded text0_def a_def] a(1) [unfolded a_def] body]
    obtain news cs where r: "gp' = AList.update text0 a gp"
      "heap st' = heap st @ news"
      "wl' = butlast wl @ [length (heap st)..<length (heap st) + length news]"
      "\<forall>q\<in>set news. refinedFrom a (heap st ! a) q"
      "prompts st' = AList.update a
              \<lparr>prompt_P = a, id_P = length (prompts st),
               file_P = ''prompt_'' @ showNat (length (prompts st)) @ ''.js'',
               temperature = T, completions_P = cs\<rparr> (prompts st)"
      by (auto simp: a_def text0_def)
    have old: "b < length (heap st) \<Longrightarrow> heap st' ! b = heap st ! b" for b
      by (simp add: r nth_append)
    have new: "apiFunction (heap st' ! b) = f"
      if "length (heap st) \<le> b" "b < length (heap st) + length news" for b
    proof -
      from that have "heap st' ! b = news ! (b - length (heap st))" "news ! (b - length (heap st)) \<in> set news"
        by (simp_all add: r nth_append)
      with r(4) refinedFrom_props(1) a(2) show ?thesis by fastforce
    qed
    have keys: "fst ` set (prompts st') = insert a (fst ` set (prompts st))"
      by (simp add: r dom_update)
    have keys_lt: "\<forall>k\<in>fst ` set (prompts st). k < length (heap st)"
      using pok by (auto simp: prompts_ok_def)
    have d1: "distinct wl'"
      using dist bl by (auto simp: r distinct_butlast)
    have d2: "\<forall>b\<in>set wl'. b < length (heap st') \<and> apiFunction (heap st' ! b) = f \<and>
         b \<notin> fst ` set (prompts st')"
    proof
      fix b assume "b \<in> set wl'"
      then consider "b \<in> set (butlast wl)" | "length (heap st) \<le> b" "b < length (heap st) + length news"
        by (auto simp: r)
      then show "b < length (heap st') \<and> apiFunction (heap st' ! b) = f \<and>
         b \<notin> fst ` set (prompts st')"
      proof cases
        case 1
        with bl a_notin show ?thesis by (auto simp: keys r(2) nth_append)
      next
        case 2
        with new [OF 2] keys_lt a(1) show ?thesis by (auto simp: keys r(2))
      qed
    qed
    have d3: "\<forall>entry\<in>set gp'. snd entry < length (heap st') \<and>
         apiFunction (heap st' ! snd entry) = f \<and>
         assemble (parses gen) (heap st' ! snd entry) = fst entry"
    proof
      fix entry assume "entry \<in> set gp'"
      with set_update_subset [of text0 a gp] have "entry = (text0, a) \<or> entry \<in> set gp"
        by (auto simp: r)
      then show "snd entry < length (heap st') \<and>
         apiFunction (heap st' ! snd entry) = f \<and>
         assemble (parses gen) (heap st' ! snd entry) = fst entry"
        using gpok a old by (auto simp: r(2) text0_def nth_append)
    qed
    have "loop_ok gen f wl' gp' st'" unfolding loop_ok_def by (intro conjI d1 d2 d3)
    moreover have "prompts_ok st'"
    proof -
      define info where "info = \<lparr>prompt_P = a, id_P = length (prompts st),
               file_P = ''prompt_'' @ showNat (length (prompts st)) @ ''.js'',
               temperature = T, completions_P = cs\<rparr>"
      have sub: "set (prompts st') \<subseteq> insert (a, info) (set (prompts st))"
        unfolding r(5) info_def by (rule set_update_subset)
      have "fst entry < length (heap st') \<and> prompt_P (snd entry) = fst entry"
        if "entry \<in> set (prompts st')" for entry
      proof (cases "entry = (a, info)")
        case True
        then show ?thesis using a(1) by (simp add: r(2) info_def)
      next
        case False
        with sub that have "entry \<in> set (prompts st)" by blast
        with pok show ?thesis by (auto simp: prompts_ok_def r(2))
      qed
      then show ?thesis unfolding prompts_ok_def by blast
    qed
    ultimately show ?thesis by simp
  qed
qed


subsection \<open>Retry prompts\<close>

lemma assemble_plain_end:
  assumes "\<not> isRetryPrompt p"
  shows "\<exists>front. assemble parser p = front @ [CHR ''{'', NL] @ testHeader p"
proof -
  have "suiteHeader p = (''describe('' @ [CHR 0x27] @ ''test '' @
     sanitizePackageName (packageName (apiFunction p)) @ [CHR 0x27] @
     '', function() '') @ [CHR ''{'', NL]"
    by (simp add: suiteHeader_def)
  then have "assemblePrompt p = (importsHeader p @ assembleUsageSnippets p @ docCommentSection p @
     signatureSection p @ functionBody p @ (''describe('' @ [CHR 0x27] @ ''test '' @
     sanitizePackageName (packageName (apiFunction p)) @ [CHR 0x27] @
     '', function() '')) @ [CHR ''{'', NL] @ testHeader p"
    by (simp add: assemblePrompt_def)
  moreover have "assemble parser p = assemblePrompt p"
    using assms by (cases "retry p") (simp_all add: assemble_def isRetryPrompt_def)
  ultimately show ?thesis by metis
qed

lemma assemble_retry_end:
  assumes "isRetryPrompt q"
  shows "\<exists>front. assemble parser q = front @ [CHR '':'', NL] @ testHeader q"
proof -
  from assms obtain body err where r: "retry q = Some (body, err)"
    by (auto simp: isRetryPrompt_def)
  define failing where "failing =
     (case closeBrackets parser (assemblePrompt q @ body @ [NL]) of
        Some source \<Rightarrow> replaceClosers (''    })'' @ [NL]) source
      | None \<Rightarrow> (assemblePrompt q @ body @ [NL]) @ ''    })'' @ [NL])"
  define t0 where "t0 = ''    // the test above fails with the following error:'' @ [NL] @
     ''    //   '' @ err @ [NL] @ ''    // fixed test''"
  have "retryTrailer err = t0 @ [CHR '':'', NL]"
    by (simp add: retryTrailer_def t0_def)
  moreover have "assemble parser q = failing @ retryTrailer err @ testHeader q"
    by (simp add: assemble_def r assembleRetry_def Let_def failing_def)
  ultimately have "assemble parser q = (failing @ t0) @ [CHR '':'', NL] @ testHeader q"
    by simp
  then show ?thesis by (rule exI)
qed

lemma assemble_retry_differs:
  assumes f: "apiFunction p = apiFunction q" and q: "isRetryPrompt q" and p: "\<not> isRetryPrompt p"
  shows "assemble parser p \<noteq> assemble parser q"
proof
  assume eq: "assemble parser p = assemble parser q"
  from assemble_plain_end [OF p] obtain x where x: "assemble parser p = x @ [CHR ''{'', NL] @ testHeader p"
    by blast
  from assemble_retry_end [OF q] obtain y where y: "assemble parser q = y @ [CHR '':'', NL] @ testHeader q"
    by blast
  have "testHeader p = testHeader q" using f by (simp add: testHeader_def)
  with eq x y have "(x @ [CHR ''{'', NL]) @ testHeader q = (y @ [CHR '':'', NL]) @ testHeader q"
    by simp
  then have "x @ [CHR ''{'', NL] = y @ [CHR '':'', NL]" by (simp only: append_same_eq)
  then show False by simp
qed

lemma retry_ok_loopBody:
  assumes ok: "loop_ok gen f wl gp st" and rok: "retry_ok (heap st)" and ne: "wl \<noteq> []"
    and body: "loopBody gen T (wl, fl, gp, st) = (wl', fl', gp', st')"
  shows "retry_ok (heap st')"
proof -
  define a where "a = last wl"
  define h where "h = heap st"
  define text0 where "text0 = assemble (parses gen) (h ! a)"
  have "a \<in> set wl" using ne by (simp add: a_def)
  with ok have a: "a < length h" "apiFunction (h ! a) = f"
    by (auto simp: loop_ok_def h_def)
  have gpok: "\<forall>entry\<in>set gp. snd entry < length h \<and> apiFunction (h ! snd entry) = f \<and>
         assemble (parses gen) (h ! snd entry) = fst entry"
    using ok by (simp add: loop_ok_def h_def)
  have inv: "isRetryPrompt (h ! b) \<Longrightarrow> pr \<in> set (provenance (h ! b)) \<Longrightarrow>
      originalPrompt pr < length h \<and> \<not> isRetryPrompt (h ! originalPrompt pr)"
    if "b < length h" for b pr
    using rok that unfolding retry_ok_def h_def by blast
  show ?thesis
  proof (cases "map_of gp text0")
    case (Some prev)
    from loopBody_duplicate [OF Some [unfolded text0_def a_def h_def], of T fl] body
    have r: "heap st' = h[prev := withProvenance (provenance (h ! a)) (h ! prev)]"
      by (simp add: a_def h_def)
    from Some have "(text0, prev) \<in> set gp" by (rule map_of_SomeD)
    with gpok have prev: "prev < length h" "apiFunction (h ! prev) = f"
      "assemble (parses gen) (h ! prev) = text0" by auto
    have same_kind: "isRetryPrompt (h ! prev) \<Longrightarrow> isRetryPrompt (h ! a)"
      using assemble_retry_differs [of "h ! a" "h ! prev" "parses gen"] a prev
      by (auto simp: text0_def)
    show ?thesis
      unfolding retry_ok_def r
    proof (intro allI impI ballI)
      fix b pr
      assume b: "b < length (h[prev := withProvenance (provenance (h ! a)) (h ! prev)])"
        and rb: "isRetryPrompt (h[prev := withProvenance (provenance (h ! a)) (h ! prev)] ! b)"
        and pr: "pr \<in> set (provenance (h[prev := withProvenance (provenance (h ! a)) (h ! prev)] ! b))"
      from b have b': "b < length h" by simp
      from rb have rb': "isRetryPrompt (h ! b)" by (simp add: merged_nth [OF b'])
      from pr have "pr \<in> set (provenance (h ! b)) \<or> (b = prev \<and> pr \<in> set (provenance (h ! a)))"
        by (auto simp: merged_nth [OF b'] split: if_splits)
      then have t: "originalPrompt pr < length h \<and> \<not> isRetryPrompt (h ! originalPrompt pr)"
      proof
        assume "pr \<in> set (provenance (h ! b))"
        with inv [OF b' rb'] show ?thesis .
      next
        assume c: "b = prev \<and> pr \<in> set (provenance (h ! a))"
        with rb' same_kind have "isRetryPrompt (h ! a)" by simp
        with inv [OF a(1)] c show ?thesis by simp
      qed
      then show "originalPrompt pr < length (h[prev := withProvenance (provenance (h ! a)) (h ! prev)]) \<and>
        \<not> isRetryPrompt (h[prev := withProvenance (provenance (h ! a)) (h ! prev)] ! originalPrompt pr)"
        by (simp add: merged_nth)
    qed
  next
    case None
    from loopBody_fresh [OF None [unfolded text0_def a_def h_def] a(1) [unfolded a_def h_def] body]
    obtain news where r: "heap st' = h @ news"
      "\<forall>q\<in>set news. refinedFrom a (h ! a) q"
      by (auto simp: a_def h_def)
    show ?thesis
      unfolding retry_ok_def r
    proof (intro allI impI ballI)
      fix b pr
      assume b: "b < length (h @ news)" and rb: "isRetryPrompt ((h @ news) ! b)"
        and pr: "pr \<in> set (provenance ((h @ news) ! b))"
      have t: "originalPrompt pr < length h \<and> \<not> isRetryPrompt (h ! originalPrompt pr)"
      proof (cases "b < length h")
        case True
        with rb pr inv [OF True, of pr] show ?thesis by (simp add: nth_append)
      next
        case False
        define q where "q = news ! (b - length h)"
        from False b have q: "(h @ news) ! b = q" "q \<in> set news"
          by (simp_all add: q_def nth_append)
        with r(2) have rf: "refinedFrom a (h ! a) q" by simp
        from refinedFrom_props(3) [OF rf] pr q have "originalPrompt pr = a" by auto
        moreover from refinedFrom_props(4) [OF rf] rb q have "\<not> isRetryPrompt (h ! a)" by simp
        ultimately show ?thesis using a(1) by simp
      qed
      then show "originalPrompt pr < length (h @ news) \<and> \<not> isRetryPrompt ((h @ news) ! originalPrompt pr)"
        by (simp add: nth_append)
    qed
  qed
qed


subsection \<open>Reachable states\<close>

lemma retry_ok_append:
  assumes "retry_ok h" and "\<not> isRetryPrompt p"
  shows "retry_ok (h @ [p])"
  unfolding retry_ok_def
proof (intro allI impI ballI)
  fix b pr
  assume b: "b < length (h @ [p])" and r: "isRetryPrompt ((h @ [p]) ! b)"
    and pr: "pr \<in> set (provenance ((h @ [p]) ! b))"
  from r assms(2) b have b': "b < length h" by (cases "b = length h") (auto simp: nth_append)
  with r pr assms(1) have "originalPrompt pr < length h \<and> \<not> isRetryPrompt (h ! originalPrompt pr)"
    unfolding retry_ok_def by (auto simp: nth_append)
  then show "originalPrompt pr < length (h @ [p]) \<and> \<not> isRetryPrompt ((h @ [p]) ! originalPrompt pr)"
    by (simp add: nth_append)
qed

lemma enter_ok:
  assumes "prompts_ok st" and "retry_ok (heap st)"
  shows "loop_ok gen f [length (heap st)] [] (st\<lparr>heap := heap st @ [newPrompt f sn defaultPromptOptions]\<rparr>) \<and>
         prompts_ok (st\<lparr>heap := heap st @ [newPrompt f sn defaultPromptOptions]\<rparr>) \<and>
         retry_ok (heap (st\<lparr>heap := heap st @ [newPrompt f sn defaultPromptOptions]\<rparr>))"
proof -
  have "\<not> isRetryPrompt (newPrompt f sn defaultPromptOptions)"
    by (simp add: isRetryPrompt_def newPrompt_def)
  with assms(2) have "retry_ok (heap st @ [newPrompt f sn defaultPromptOptions])"
    by (rule retry_ok_append)
  moreover have "length (heap st) \<notin> fst ` set (prompts st)"
    using assms(1) by (auto simp: prompts_ok_def)
  moreover have "prompts_ok (st\<lparr>heap := heap st @ [newPrompt f sn defaultPromptOptions]\<rparr>)"
    using assms(1) by (auto simp: prompts_ok_def)
  ultimately show ?thesis by (simp add: loop_ok_def newPrompt_def)
qed

lemma reachable_invariants:
  "(reachable gen (st :: 'cov Engine) \<longrightarrow> prompts_ok st \<and> retry_ok (heap st)) \<and>
   (inLoop gen f T (ls :: 'cov loopState) \<longrightarrow>
      loop_ok gen f (fst ls) (fst (snd (snd ls))) (snd (snd (snd ls))) \<and>
      prompts_ok (snd (snd (snd ls))) \<and> retry_ok (heap (snd (snd (snd ls)))))"
proof (rule reachable_inLoop.induct
    [where ?P1.0 = "\<lambda>st. prompts_ok st \<and> retry_ok (heap st)"
       and ?P2.0 = "\<lambda>f T ls. loop_ok gen f (fst ls) (fst (snd (snd ls))) (snd (snd (snd ls))) \<and>
              prompts_ok (snd (snd (snd ls))) \<and> retry_ok (heap (snd (snd (snd ls))))"])
  fix c :: 'cov
  show "prompts_ok (emptyEngine c) \<and> retry_ok (heap (emptyEngine c))"
    by (simp add: emptyEngine_def prompts_ok_def retry_ok_def)
next
  fix s :: "'cov Engine" and c
  assume "prompts_ok s \<and> retry_ok (heap s)"
  then show "prompts_ok (recordCoverageInfo c s) \<and> retry_ok (heap (recordCoverageInfo c s))"
    by (simp add: recordCoverageInfo_def prompts_ok_def)
next
  fix s :: "'cov Engine" and f T
  let ?s0 = "s\<lparr>heap := heap s @ [newPrompt f
      (case snippetMap gen (functionName f) of None \<Rightarrow> [] | Some sn \<Rightarrow> sn) defaultPromptOptions]\<rparr>"
  assume "prompts_ok s \<and> retry_ok (heap s)"
  with enter_ok [of s gen f] show
    "loop_ok gen f (fst ([length (heap s)], False, [], ?s0))
       (fst (snd (snd ([length (heap s)], False, [], ?s0))))
       (snd (snd (snd ([length (heap s)], False, [], ?s0)))) \<and>
     prompts_ok (snd (snd (snd ([length (heap s)], False, [], ?s0)))) \<and>
     retry_ok (heap (snd (snd (snd ([length (heap s)], False, [], ?s0)))))"
    by simp
next
  fix f T wl and fl :: bool and gp and s :: "'cov Engine"
  assume ih: "loop_ok gen f (fst (wl, fl, gp, s)) (fst (snd (snd (wl, fl, gp, s))))
       (snd (snd (snd (wl, fl, gp, s)))) \<and>
     prompts_ok (snd (snd (snd (wl, fl, gp, s)))) \<and>
     retry_ok (heap (snd (snd (snd (wl, fl, gp, s)))))" and ne: "wl \<noteq> []"
  obtain wl' fl' gp' s' where b: "loopBody gen T (wl, fl, gp, s) = (wl', fl', gp', s')"
    by (cases "loopBody gen T (wl, fl, gp, s)") auto
  from ih have ok: "loop_ok gen f wl gp s" "prompts_ok s" "retry_ok (heap s)" by simp_all
  from loop_ok_loopBody [OF ok(1,2) ne b] retry_ok_loopBody [OF ok(1,3) ne b]
  show "loop_ok gen f (fst (loopBody gen T (wl, fl, gp, s)))
       (fst (snd (snd (loopBody gen T (wl, fl, gp, s)))))
       (snd (snd (snd (loopBody gen T (wl, fl, gp, s))))) \<and>
     prompts_ok (snd (snd (snd (loopBody gen T (wl, fl, gp, s))))) \<and>
     retry_ok (heap (snd (snd (snd (loopBody gen T (wl, fl, gp, s))))))"
    by (simp add: b)
next
  fix f T and fl :: bool and gp and s :: "'cov Engine"
  assume "loop_ok gen f (fst ([], fl, gp, s)) (fst (snd (snd ([], fl, gp, s))))
       (snd (snd (snd ([], fl, gp, s)))) \<and>
     prompts_ok (snd (snd (snd ([], fl, gp, s)))) \<and>
     retry_ok (heap (snd (snd (snd ([], fl, gp, s)))))"
  then show "prompts_ok s \<and> retry_ok (heap s)" by simp
qed

lemma inLoop_worklistLoop:
  assumes "inLoop gen f T (wl, fl, gp, st)" and "worklistLoop gen T (wl, fl, gp, st) = Some res"
  shows "reachable gen (snd res)"
proof -
  have "\<exists>gp'. inLoop gen f T ([], fst res, gp', snd res)"
  proof (rule worklistLoop_invariant [where I = "\<lambda>wl fl gp st. inLoop gen f T (wl, fl, gp, st)", OF assms(2)])
    show "inLoop gen f T (wl, fl, gp, st)" by (rule assms(1))
  next
    fix wl fl gp wl' fl' gp' and s s' :: "'a Engine"
    assume "inLoop gen f T (wl, fl, gp, s)" "wl \<noteq> []"
      "loopBody gen T (wl, fl, gp, s) = (wl', fl', gp', s')"
    then show "inLoop gen f T (wl', fl', gp', s')"
      using reachable_inLoop.iterate [of gen f T wl fl gp s] by simp
  qed
  then show ?thesis by (auto intro: reachable_inLoop.leave)
qed

lemma reachable_processTemperature:
  assumes "reachable gen st" and "processTemperature gen f T st = Some res"
  shows "reachable gen (snd res)"
  using assms(2) reachable_inLoop.enter [OF assms(1), of f T]
  by (auto simp: processTemperature_def Let_def intro: inLoop_worklistLoop)

lemma reachable_generate:
  assumes "reachable gen st" and "generateAndValidateTests gen f st = Some st'"
  shows "reachable gen st'"
  using assms(2,1) reachable_processTemperature
  unfolding generateAndValidateTests_def
  by (elim temperatureLoop_rule [where I = "reachable gen"]) auto

lemma reachable_runExperiment:
  assumes "reachable gen st" and "runExperiment fs gen now cov limit st = Some st'"
  shows "reachable gen st'"
proof -
  from assms(2) obtain s where e: "experimentLoop gen now (now 0 + limit) 1 fs st = Some s"
    and st': "st' = recordCoverageInfo (cov (validatorLog s)) s"
    by (auto simp: runExperiment_def Let_def split: option.splits)
  have "reachable gen s"
    using e assms(1) reachable_generate
    by (elim experimentLoop_rule [where I = "reachable gen"]) auto
  then show ?thesis unfolding st' by (rule reachable_inLoop.coverage)
qed

text \<open>
  Claim C9. In every reachable state of the engine, between calls and at every test of
  the loop condition, each provenance record of a retry prompt names a prompt that is
  not a retry prompt. \<open>RetryWithError\<close> gives a prompt only for an original that is not
  a retry prompt and an outcome with status \<open>Failed\<close>, and it is the only refiner that
  gives retry prompts. Merging the provenance of a duplicate keeps this: a prompt
  whose assembled text equals that of a retry prompt for the same function is a retry
  prompt too.
\<close>

theorem retry_non_chaining:
  "(reachable gen st \<longrightarrow> retry_ok (heap st)) \<and>
   (inLoop gen f T ls \<longrightarrow> retry_ok (heap (snd (snd (snd ls))))) \<and>
   (q \<in> set (refine RetryWithError p c res) \<longrightarrow> \<not> isRetryPrompt p \<and> status res = Failed) \<and>
   (q \<in> set (refine r p c res) \<longrightarrow> isRetryPrompt q \<longrightarrow> r = RetryWithError)"
proof (intro conjI impI)
  assume "reachable gen st"
  with reachable_invariants [of gen st] show "retry_ok (heap st)" by simp
next
  assume "inLoop gen f T ls"
  with reachable_invariants [of gen _ f T ls] show "retry_ok (heap (snd (snd (snd ls))))" by simp
next
  assume "q \<in> set (refine RetryWithError p c res)"
  then show "\<not> isRetryPrompt p" "status res = Failed"
    by (cases res; simp split: if_splits)+
next
  assume "q \<in> set (refine r p c res)" "isRetryPrompt q"
  then show "r = RetryWithError"
    by (cases r) (auto simp: newPrompt_def isRetryPrompt_def split: if_splits)
qed

theorem retry_non_chaining_witness:
  "reachable failingGenerator (the (generateAndValidateTests failingGenerator exFunction (emptyEngine ()))) \<and>
   retry_ok (heap (the (generateAndValidateTests failingGenerator exFunction (emptyEngine ())))) \<and>
   map isRetryPrompt (heap (the (generateAndValidateTests failingGenerator exFunction (emptyEngine ()))))
     = [False, True] \<and>
   inLoop failingGenerator exFunction 0 (loopBody failingGenerator 0 exLoopStart) \<and>
   retry_ok (heap (snd (snd (snd (loopBody failingGenerator 0 exLoopStart))))) \<and>
   newRetryPrompt exPrompt ''c'' ''test failed'' \<in>
     set (refine RetryWithError exPrompt ''c'' (alwaysFails [] ''test_0.js'' ''c'')) \<and>
   \<not> isRetryPrompt exPrompt \<and> status (alwaysFails [] ''test_0.js'' ''c'') = Failed"
proof -
  let ?run = "generateAndValidateTests failingGenerator exFunction (emptyEngine ())"
  have run: "?run \<noteq> None"
    by code_simp
  have kinds: "map isRetryPrompt (heap (the ?run)) = [False, True]"
    by code_simp
  from run have r: "reachable failingGenerator (the ?run)"
    using reachable_generate [OF reachable_inLoop.fresh] by fastforce
  have start: "inLoop failingGenerator exFunction 0 exLoopStart"
    using reachable_inLoop.enter [where gen = failingGenerator and st = "emptyEngine ()"
        and f = exFunction and T = 0] reachable_inLoop.fresh [of failingGenerator "()"]
    by (simp add: exLoopStart_def exPrompt_def emptyEngine_def failingGenerator_def noSnippets_def)
  have l: "inLoop failingGenerator exFunction 0 (loopBody failingGenerator 0 exLoopStart)"
    using reachable_inLoop.iterate [where gen = failingGenerator and f = exFunction and T = 0
        and wl = "[0]" and fl = False and gp = "[]"
        and st = "(emptyEngine ())\<lparr>heap := [exPrompt]\<rparr>"] start
    by (simp add: exLoopStart_def)
  have m: "newRetryPrompt exPrompt ''c'' ''test failed'' \<in>
     set (refine RetryWithError exPrompt ''c'' (alwaysFails [] ''test_0.js'' ''c''))"
    by (simp add: alwaysFails_def isRetryPrompt_def exPrompt_def newPrompt_def)
  from retry_non_chaining [of failingGenerator "the ?run" exFunction 0
      "loopBody failingGenerator 0 exLoopStart" "newRetryPrompt exPrompt ''c'' ''test failed''"
      exPrompt "''c''" "alwaysFails [] ''test_0.js'' ''c''"] r l m kinds
  show ?thesis by simp
qed


subsection \<open>Runs of the engine on the example inputs\<close>

text \<open>
  The header of the prompts for the package \<open>p\<close> is the three lines that the tests of
  \<open>promptCrafting\<close> expect. A package name with a backslash followed by \<open>n\<close> in it comes
  out with a newline in their place.
\<close>

lemma importsHeader_example:
  "importsHeader exPrompt =
     ''let mocha = require('' @ [CHR 0x27] @ ''mocha'' @ [CHR 0x27] @ '');'' @ [NL] @
     ''let assert = require('' @ [CHR 0x27] @ ''assert'' @ [CHR 0x27] @ '');'' @ [NL] @
     ''let p = require('' @ [CHR 0x27] @ ''p'' @ [CHR 0x27] @ '');'' @ [NL]"
  by code_simp

lemma importsHeader_escaped:
  "importsHeader (exPrompt\<lparr>apiFunction := exFunction\<lparr>packageName := [CHR ''a'', CHR 0x5C, CHR ''n'', CHR ''b'']\<rparr>\<rparr>) =
     ''let mocha = require('' @ [CHR 0x27] @ ''mocha'' @ [CHR 0x27] @ '');'' @ [NL] @
     ''let assert = require('' @ [CHR 0x27] @ ''assert'' @ [CHR 0x27] @ '');'' @ [NL] @
     ''let a_nb = require('' @ [CHR 0x27] @ ''a'' @ [NL] @ ''b'' @ [CHR 0x27] @ '');'' @ [NL]"
  by code_simp

text \<open>
  Claim C4, at the failing input. The function has a doc comment of which nothing is
  left after trimming. \<open>DocCommentIncluder\<close> still makes a prompt from the initial
  prompt; its assembled text is that of the initial prompt, so it is taken for a
  duplicate and its provenance record, which names the initial prompt, is merged into
  the initial prompt: prompt 0 ends with a provenance record whose original is
  prompt 0.
\<close>

theorem self_provenance_on_empty_doc_comment:
  "trimAndCombineDocComment ''* '' = [] \<and>
   map_option selfProvenance
     (generateAndValidateTests passingGenerator emptyDocFunction (emptyEngine ())) = Some [0]"
  by code_simp

text \<open>
  Claim C5, as stated, fails. With two temperatures and no passing test, the initial
  prompt is made again for the second temperature and \<open>generatedPrompts\<close> starts empty
  again: the collector ends with two prompt infos, 0 and 1, with the same assembled
  text.
\<close>

theorem prompt_texts_repeat_across_temperatures:
  "map_option (promptTexts acceptAll)
     (generateAndValidateTests silentGenerator exFunction (emptyEngine ())) =
     Some [assemblePrompt exPrompt, assemblePrompt exPrompt] \<and>
   map_option promptIds
     (generateAndValidateTests silentGenerator exFunction (emptyEngine ())) = Some [0, 1]"
  by code_simp

text \<open>
  Claim C6, as stated, fails. The time limit is 0 and the clock stands at 0 when
  \<open>runExperiment\<close> reads it for the deadline and when it tests the deadline before it
  takes the one function; from the third read on the clock gives 5. A loop that
  tested the deadline before taking a prompt from the worklist would read the clock a
  third time, find the deadline passed and send nothing. The run sends two requests:
  after the first iteration of the loop the worklist holds the retry prompt, and the
  loop goes on to pop and send it.
\<close>

theorem deadline_not_checked_per_prompt:
  "lateClock 0 + 0 = 0 \<and> \<not> lateClock 1 > 0 \<and> lateClock 2 > 0 \<and> lateClock 3 > 0 \<and>
   map_option requestCount
     (runExperiment [exFunction] failingGenerator lateClock noCoverage 0 (emptyEngine ())) =
     Some 2 \<and>
   fst (loopBody failingGenerator 0 exLoopStart) \<noteq> [] \<and>
   requestCount (snd (snd (snd (loopBody failingGenerator 0 exLoopStart)))) = 1 \<and>
   map_option requestCount
     (map_option snd (worklistLoop failingGenerator 0 (loopBody failingGenerator 0 exLoopStart))) =
     Some 2"
  by code_simp


subsection \<open>Prompt infos of one temperature\<close>

lemma texts_ok_loopBody:
  assumes ok: "loop_ok gen f wl gp st" and pok: "prompts_ok st" and ne: "wl \<noteq> []"
    and body: "loopBody gen T (wl, fl, gp, st) = (wl', fl', gp', st')"
    and tok: "texts_ok gen n gp st"
  shows "texts_ok gen n gp' st' \<and> take n (prompts st') = take n (prompts st) \<and>
         take n (promptTexts (parses gen) st') = take n (promptTexts (parses gen) st)"
proof -
  define a where "a = last wl"
  define h where "h = heap st"
  define text0 where "text0 = assemble (parses gen) (h ! a)"
  have "a \<in> set wl" using ne by (simp add: a_def)
  with ok have a: "a < length h" "a \<notin> fst ` set (prompts st)"
    by (auto simp: loop_ok_def h_def)
  have refs: "prompt_P (snd entry) < length h" if "entry \<in> set (prompts st)" for entry
    using pok that by (auto simp: prompts_ok_def h_def)
  from tok have n: "n \<le> length (prompts st)"
    and d: "distinct (drop n (promptTexts (parses gen) st))"
    and sub: "set (drop n (promptTexts (parses gen) st)) \<subseteq> fst ` set gp"
    by (simp_all add: texts_ok_def)
  show ?thesis
  proof (cases "map_of gp text0")
    case (Some prev)
    from loopBody_duplicate [OF Some [unfolded text0_def a_def h_def], of T fl] body
    have r: "gp' = gp" "prompts st' = prompts st"
      "heap st' = h[prev := withProvenance (provenance (h ! a)) (h ! prev)]"
      by (simp_all add: a_def h_def)
    have "promptTexts (parses gen) st' = promptTexts (parses gen) st"
      unfolding promptTexts_def r h_def [symmetric]
      by (rule map_cong) (simp_all add: merged_nth refs)
    with tok show ?thesis by (simp add: texts_ok_def r)
  next
    case None
    from loopBody_fresh [OF None [unfolded text0_def a_def h_def] a(1) [unfolded a_def h_def] body]
    obtain news cs where r: "gp' = AList.update text0 a gp" "heap st' = h @ news"
      "prompts st' = AList.update a
              \<lparr>prompt_P = a, id_P = length (prompts st),
               file_P = ''prompt_'' @ showNat (length (prompts st)) @ ''.js'',
               temperature = T, completions_P = cs\<rparr> (prompts st)"
      by (auto simp: a_def h_def text0_def)
    define info where "info = \<lparr>prompt_P = a, id_P = length (prompts st),
               file_P = ''prompt_'' @ showNat (length (prompts st)) @ ''.js'',
               temperature = T, completions_P = cs\<rparr>"
    have p': "prompts st' = prompts st @ [(a, info)]"
      unfolding r(3) info_def using a(2) by (rule update_fresh)
    have "map (\<lambda>entry. assemble (parses gen) ((h @ news) ! prompt_P (snd entry))) (prompts st) =
          map (\<lambda>entry. assemble (parses gen) (h ! prompt_P (snd entry))) (prompts st)"
      by (rule map_cong) (simp_all add: nth_append refs)
    then have t': "promptTexts (parses gen) st' = promptTexts (parses gen) st @ [text0]"
      using a(1) by (simp add: promptTexts_def p' r(2) h_def [symmetric] info_def nth_append text0_def)
    have len: "n \<le> length (promptTexts (parses gen) st)" using n by (simp add: promptTexts_def)
    have dr: "drop n (promptTexts (parses gen) st') = drop n (promptTexts (parses gen) st) @ [text0]"
      using len by (simp add: t')
    have fresh: "text0 \<notin> fst ` set gp" using None by (rule map_of_None_fresh)
    have "distinct (drop n (promptTexts (parses gen) st'))"
      using d sub fresh by (auto simp: dr)
    moreover have "set (drop n (promptTexts (parses gen) st')) \<subseteq> fst ` set gp'"
      using sub by (auto simp: dr r(1) dom_update)
    moreover have "n \<le> length (prompts st')" using n by (simp add: p')
    moreover have "take n (prompts st') = take n (prompts st)" using n by (simp add: p')
    moreover have "take n (promptTexts (parses gen) st') = take n (promptTexts (parses gen) st)"
      using len by (simp add: t')
    ultimately show ?thesis by (simp add: texts_ok_def)
  qed
qed

lemma enter_loop_ok:
  assumes "prompts_ok st"
  shows "loop_ok gen f [length (heap st)] [] (st\<lparr>heap := heap st @ [newPrompt f sn defaultPromptOptions]\<rparr>) \<and>
         prompts_ok (st\<lparr>heap := heap st @ [newPrompt f sn defaultPromptOptions]\<rparr>)"
proof -
  have "length (heap st) \<notin> fst ` set (prompts st)"
    using assms by (auto simp: prompts_ok_def)
  moreover have "prompts_ok (st\<lparr>heap := heap st @ [newPrompt f sn defaultPromptOptions]\<rparr>)"
    using assms by (auto simp: prompts_ok_def)
  ultimately show ?thesis by (simp add: loop_ok_def newPrompt_def)
qed

lemma promptTexts_enter:
  assumes "prompts_ok st"
  shows "promptTexts parser (st\<lparr>heap := heap st @ news\<rparr>) = promptTexts parser st"
  unfolding promptTexts_def
  by (rule map_cong) (use assms in \<open>auto simp: prompts_ok_def nth_append\<close>)

lemma processTemperature_texts:
  assumes pok: "prompts_ok st" and run: "processTemperature gen f T st = Some res"
  shows "prompts_ok (snd res)"
    and "take (length (prompts st)) (prompts (snd res)) = prompts st"
    and "take (length (prompts st)) (promptTexts (parses gen) (snd res)) = promptTexts (parses gen) st"
    and "distinct (drop (length (prompts st)) (promptTexts (parses gen) (snd res)))"
proof -
  define n where "n = length (prompts st)"
  define st0 where "st0 = st\<lparr>heap := heap st @ [newPrompt f
     (case snippetMap gen (functionName f) of Some sn \<Rightarrow> sn | None \<Rightarrow> []) defaultPromptOptions]\<rparr>"
  let ?I = "\<lambda>wl (fl :: bool) gp s. loop_ok gen f wl gp s \<and> prompts_ok s \<and> texts_ok gen n gp s \<and>
     take n (prompts s) = prompts st \<and>
     take n (promptTexts (parses gen) s) = promptTexts (parses gen) st"
  have loop: "worklistLoop gen T ([length (heap st)], False, [], st0) = Some res"
    using run by (simp add: processTemperature_def Let_def st0_def)
  have texts0: "promptTexts (parses gen) st0 = promptTexts (parses gen) st"
    unfolding st0_def using pok by (rule promptTexts_enter)
  have len: "length (promptTexts (parses gen) st) = n" by (simp add: promptTexts_def n_def)
  have "\<exists>gp'. ?I [] (fst res) gp' (snd res)"
  proof (rule worklistLoop_invariant [where I = ?I, OF loop])
    have "texts_ok gen n [] st0"
      using len by (simp add: texts_ok_def texts0) (simp add: st0_def n_def)
    moreover have "take n (prompts st0) = prompts st" by (simp add: st0_def n_def)
    moreover have "take n (promptTexts (parses gen) st0) = promptTexts (parses gen) st"
      using len by (simp add: texts0)
    ultimately show "?I [length (heap st)] False [] st0"
      using enter_loop_ok [OF pok, of gen f] by (simp add: st0_def)
  next
    fix wl fl gp wl' fl' gp' and s s' :: "'a Engine"
    assume i: "?I wl fl gp s" and ne: "wl \<noteq> []"
      and b: "loopBody gen T (wl, fl, gp, s) = (wl', fl', gp', s')"
    from i loop_ok_loopBody [OF _ _ ne b, of f] texts_ok_loopBody [OF _ _ ne b, of f n]
    show "?I wl' fl' gp' s'" by simp
  qed
  then show "prompts_ok (snd res)"
    and "take (length (prompts st)) (prompts (snd res)) = prompts st"
    and "take (length (prompts st)) (promptTexts (parses gen) (snd res)) = promptTexts (parses gen) st"
    and "distinct (drop (length (prompts st)) (promptTexts (parses gen) (snd res)))"
    by (auto simp: texts_ok_def n_def)
qed

lemma count_list_distinct: "distinct xs \<Longrightarrow> count_list xs x \<le> 1"
  by (induction xs) (auto simp: count_list_0_iff)

lemma temperatureLoop_texts:
  assumes "prompts_ok st" and "temperatureLoop gen f Ts st = Some st'"
  shows "take (length (prompts st)) (prompts st') = prompts st \<and>
         take (length (prompts st)) (promptTexts (parses gen) st') = promptTexts (parses gen) st \<and>
         (\<forall>t. count_list (drop (length (prompts st)) (promptTexts (parses gen) st')) t \<le> length Ts)"
  using assms
proof (induction Ts arbitrary: st)
  case Nil
  then show ?case by (simp add: promptTexts_def)
next
  case (Cons T Ts)
  define n where "n = length (prompts st)"
  from Cons.prems(2) obtain fl s where p: "processTemperature gen f T st = Some (fl, s)"
    by (auto split: option.splits)
  note one = processTemperature_texts [OF Cons.prems(1) p, simplified, folded n_def]
  show ?case
  proof (cases fl)
    case True
    with Cons.prems(2) p have "st' = s" by simp
    with one count_list_distinct [OF one(4)] show ?thesis
      by (auto simp: n_def intro: le_trans)
  next
    case False
    with Cons.prems(2) p have rest: "temperatureLoop gen f Ts s = Some st'" by simp
    define m where "m = length (prompts s)"
    from Cons.IH [OF one(1) rest]
    have ih: "take m (prompts st') = prompts s"
      "take m (promptTexts (parses gen) st') = promptTexts (parses gen) s"
      "\<And>t. count_list (drop m (promptTexts (parses gen) st')) t \<le> length Ts"
      by (simp_all add: m_def)
    have "length (take n (prompts s)) = n" using one(2) by (simp add: n_def)
    then have nm: "n \<le> m" by (simp add: m_def)
    have a: "take n (prompts st') = prompts st"
    proof -
      have "take n (prompts st') = take n (take m (prompts st'))" using nm by (simp add: min_def)
      then show ?thesis using ih(1) one(2) by simp
    qed
    have b: "take n (promptTexts (parses gen) st') = promptTexts (parses gen) st"
    proof -
      have "take n (promptTexts (parses gen) st') = take n (take m (promptTexts (parses gen) st'))"
        using nm by (simp add: min_def)
      then show ?thesis using ih(2) one(3) by simp
    qed
    have split: "drop n (promptTexts (parses gen) st') =
        drop n (promptTexts (parses gen) s) @ drop m (promptTexts (parses gen) st')"
    proof -
      have "promptTexts (parses gen) st' =
          take m (promptTexts (parses gen) st') @ drop m (promptTexts (parses gen) st')"
        by simp
      then have "promptTexts (parses gen) st' =
          promptTexts (parses gen) s @ drop m (promptTexts (parses gen) st')"
        using ih(2) by simp
      moreover have "n \<le> length (promptTexts (parses gen) s)"
        using nm by (simp add: promptTexts_def m_def)
      ultimately show ?thesis by (metis drop_append diff_is_0_eq drop0)
    qed
    have c: "count_list (drop n (promptTexts (parses gen) st')) t \<le> length (T # Ts)" for t
      using count_list_distinct [OF one(4), of t] ih(3) [of t] by (simp add: split)
    from a b c show ?thesis by (simp add: n_def)
  qed
qed

text \<open>
  Claim C5, amended. Within the processing of one temperature for one function, the
  prompt infos the collector records have pairwise different assembled texts, and the
  prompt infos recorded before stay as they were. Over a whole run of
  \<open>generateAndValidateTests\<close> a text can be recorded again at another temperature, since
  \<open>generatedPrompts\<close> starts empty for each temperature: among the prompt infos that the
  run records, a text occurs at most as many times as there are temperatures.
\<close>

theorem prompt_texts_distinct_per_temperature:
  assumes pok: "prompts_ok st"
  shows "(processTemperature gen f T st = Some res \<longrightarrow>
            take (length (prompts st)) (prompts (snd res)) = prompts st \<and>
            distinct (drop (length (prompts st)) (promptTexts (parses gen) (snd res)))) \<and>
         (generateAndValidateTests gen f st = Some st' \<longrightarrow>
            take (length (prompts st)) (prompts st') = prompts st \<and>
            (\<forall>t. count_list (drop (length (prompts st)) (promptTexts (parses gen) st')) t
               \<le> length (temperatures gen)))"
proof (intro conjI impI)
  assume run: "processTemperature gen f T st = Some res"
  from processTemperature_texts(2,4) [OF pok run]
  show "take (length (prompts st)) (prompts (snd res)) = prompts st"
    and "distinct (drop (length (prompts st)) (promptTexts (parses gen) (snd res)))" .
next
  assume "generateAndValidateTests gen f st = Some st'"
  then have run: "temperatureLoop gen f (temperatures gen) st = Some st'"
    by (simp add: generateAndValidateTests_def)
  from temperatureLoop_texts [OF pok run]
  show "take (length (prompts st)) (prompts st') = prompts st"
    and "\<forall>t. count_list (drop (length (prompts st)) (promptTexts (parses gen) st')) t
           \<le> length (temperatures gen)"
    by simp_all
qed

theorem prompt_texts_distinct_per_temperature_witness:
  "prompts_ok (emptyEngine ()) \<and>
   processTemperature failingGenerator exFunction 0 (emptyEngine ()) \<noteq> None \<and>
   distinct (promptTexts acceptAll
     (snd (the (processTemperature failingGenerator exFunction 0 (emptyEngine ()))))) \<and>
   promptIds (snd (the (processTemperature failingGenerator exFunction 0 (emptyEngine ())))) = [0, 1] \<and>
   generateAndValidateTests silentGenerator exFunction (emptyEngine ()) \<noteq> None \<and>
   length (temperatures silentGenerator) = 2 \<and>
   count_list (promptTexts acceptAll
     (the (generateAndValidateTests silentGenerator exFunction (emptyEngine ()))))
     (assemblePrompt exPrompt) \<le> 2"
proof -
  have pok: "prompts_ok (emptyEngine ())" by (simp add: prompts_ok_def emptyEngine_def)
  have run: "processTemperature failingGenerator exFunction 0 (emptyEngine ()) \<noteq> None"
    by code_simp
  have ids: "promptIds (snd (the (processTemperature failingGenerator exFunction 0 (emptyEngine ())))) = [0, 1]"
    by code_simp
  have whole: "generateAndValidateTests silentGenerator exFunction (emptyEngine ()) \<noteq> None"
    by code_simp
  have two: "length (temperatures silentGenerator) = 2" by (simp add: silentGenerator_def)
  from run obtain res where res: "processTemperature failingGenerator exFunction 0 (emptyEngine ()) = Some res"
    by auto
  from whole obtain st' where st': "generateAndValidateTests silentGenerator exFunction (emptyEngine ()) = Some st'"
    by auto
  from prompt_texts_distinct_per_temperature [OF pok, of failingGenerator exFunction 0 res] res
  have d: "distinct (promptTexts acceptAll (snd res))"
    by (simp add: emptyEngine_def failingGenerator_def)
  from prompt_texts_distinct_per_temperature [OF pok, of silentGenerator exFunction 0 res st'] st'
  have "\<forall>t. count_list (drop (length (prompts (emptyEngine ())))
            (promptTexts (parses silentGenerator) st')) t \<le> length (temperatures silentGenerator)"
    by blast
  moreover have "parses silentGenerator = acceptAll" "prompts (emptyEngine ()) = []"
    by (simp_all add: silentGenerator_def emptyEngine_def)
  ultimately have c: "count_list (promptTexts acceptAll st') (assemblePrompt exPrompt) \<le> 2"
    by (simp add: two)
  from pok run ids whole two res st' d c show ?thesis by simp
qed


subsection \<open>Passing tests and the flag\<close>

lemma validateCompletion_statuses:
  assumes ok: "collector_ok st"
  shows "testStatuses (snd (validateCompletion gen a c T st)) = testStatuses st \<or>
         testStatuses (snd (validateCompletion gen a c T st)) =
           testStatuses st @ [status (outcome (fst (validateCompletion gen a c T st)))]"
proof -
  define key where "key = (case completeTest (parses gen) (heap st ! a) c True of
                             Some src \<Rightarrow> src | None \<Rightarrow> c)"
  show ?thesis
  proof (cases "map_of (tests st) key")
    case None
    from validateCompletion_new [OF key_def None, of T] show ?thesis
      by (simp add: testStatuses_def)
  next
    case (Some ti)
    then have "(key, ti) \<in> set (tests st)" by (rule map_of_SomeD)
    with ok have ne: "prompts_T ti \<noteq> []" by (auto simp: collector_ok_def)
    note eq = validateCompletion_known [OF key_def Some ne, of T]
    have "map (\<lambda>e. status (outcome (snd e)))
            (AList.update key (ti\<lparr>prompts_T := prompts_T ti @ [a]\<rparr>) (tests st)) =
          map (\<lambda>e. status (outcome (snd e))) (tests st)"
      by (rule update_known_map [OF Some]) simp
    then show ?thesis by (simp add: testStatuses_def eq)
  qed
qed

lemma passing_ok_completionStep:
  assumes "passing_ok n fl st"
  shows "passing_ok n (fst (completionStep gen a T (fl, wl, st) c))
           (snd (snd (completionStep gen a T (fl, wl, st) c)))"
proof -
  obtain ti st1 where v: "validateCompletion gen a c T st = (ti, st1)"
    by (cases "validateCompletion gen a c T st") auto
  obtain wl' st2 where r: "refinePrompts a c ti (wl, st1) = (wl', st2)"
    by (cases "refinePrompts a c ti (wl, st1)") auto
  from assms have ok: "collector_ok st" and n: "n \<le> length (tests st)"
    and p: "Passed \<in> set (drop n (testStatuses st)) \<longrightarrow> fl"
    by (simp_all add: passing_ok_def)
  have t2: "tests st2 = tests st1" using refinePrompts_tests [of a c ti wl st1] r by simp
  have ok1: "collector_ok st1" using collector_ok_validateCompletion [OF ok, of gen a c T] v by simp
  then have ok2: "collector_ok st2" using collector_ok_cong [OF t2] by simp
  have len: "n \<le> length (testStatuses st)" using n by (simp add: testStatuses_def)
  from validateCompletion_statuses [OF ok, of gen a c T] v
  have "testStatuses st1 = testStatuses st \<or>
        testStatuses st1 = testStatuses st @ [status (outcome ti)]" by simp
  then have "n \<le> length (testStatuses st1) \<and>
     (Passed \<in> set (drop n (testStatuses st1)) \<longrightarrow> fl \<or> status (outcome ti) = Passed)"
    using p len by auto
  moreover have "testStatuses st2 = testStatuses st1" by (simp add: testStatuses_def t2)
  moreover have "completionStep gen a T (fl, wl, st) c = (fl \<or> status (outcome ti) = Passed, wl', st2)"
    by (simp add: completionStep_def v r)
  moreover have "length (tests st2) = length (testStatuses st1)"
    by (simp add: testStatuses_def t2)
  ultimately show ?thesis using ok2 by (simp add: passing_ok_def)
qed

lemma passing_ok_completions:
  assumes "passing_ok n fl st"
  shows "passing_ok n (fst (foldl (completionStep gen a T) (fl, wl, st) cs))
           (snd (snd (foldl (completionStep gen a T) (fl, wl, st) cs)))"
  using assms
proof (induction cs arbitrary: fl wl st)
  case Nil
  then show ?case by simp
next
  case (Cons c cs)
  obtain fl' wl' st' where s: "completionStep gen a T (fl, wl, st) c = (fl', wl', st')"
    by (cases "completionStep gen a T (fl, wl, st) c") auto
  from passing_ok_completionStep [OF Cons.prems, of gen a T wl c] s
  have "passing_ok n fl' st'" by simp
  from Cons.IH [OF this, of wl'] show ?case by (simp add: s)
qed

lemma passing_ok_loopBody:
  assumes "passing_ok n fl st" and body: "loopBody gen T (wl, fl, gp, st) = (wl', fl', gp', st')"
  shows "passing_ok n fl' st'"
proof (cases "map_of gp (assemble (parses gen) (heap st ! last wl))")
  case (Some prev)
  from loopBody_duplicate [OF Some, of T fl] body assms(1) show ?thesis
    by (auto simp: passing_ok_def collector_ok_def testStatuses_def)
next
  case None
  define text0 where "text0 = assemble (parses gen) (heap st ! last wl)"
  define st1 where "st1 = st\<lparr>modelLog := modelLog st @ [(text0, T)]\<rparr>"
  define cs where "cs = completions gen (modelLog st) text0 T"
  define res where "res = foldl (completionStep gen (last wl) T) (fl, butlast wl, st1) cs"
  have "passing_ok n fl st1"
    using assms(1) by (simp add: st1_def passing_ok_def collector_ok_def testStatuses_def)
  then have "passing_ok n (fst res) (snd (snd res))"
    unfolding res_def by (rule passing_ok_completions)
  moreover have "loopBody gen T (wl, fl, gp, st) =
      (fst (snd res), fst res, AList.update text0 (last wl) gp, recordPromptInfo (last wl) T cs (snd (snd res)))"
    using None
    by (simp add: loopBody_def Let_def text0_def [symmetric] st1_def [symmetric] cs_def [symmetric]
          res_def [symmetric] split: prod.splits)
  ultimately show ?thesis using body
    by (auto simp: recordPromptInfo_def Let_def passing_ok_def collector_ok_def testStatuses_def)
qed

lemma passing_ok_processTemperature:
  assumes ok: "collector_ok st" and run: "processTemperature gen f T st = Some res"
  shows "passing_ok (length (tests st)) (fst res) (snd res)"
proof -
  define n where "n = length (tests st)"
  define st0 where "st0 = st\<lparr>heap := heap st @ [newPrompt f
     (case snippetMap gen (functionName f) of Some sn \<Rightarrow> sn | None \<Rightarrow> []) defaultPromptOptions]\<rparr>"
  have loop: "worklistLoop gen T ([length (heap st)], False, [], st0) = Some res"
    using run by (simp add: processTemperature_def Let_def st0_def)
  have "\<exists>gp' :: (string \<times> ref) list. passing_ok n (fst res) (snd res)"
  proof (rule worklistLoop_invariant [where I = "\<lambda>wl fl gp s. passing_ok n fl s", OF loop])
    show "passing_ok n False st0"
      using ok by (simp add: passing_ok_def st0_def n_def collector_ok_def testStatuses_def)
  next
    fix wl fl gp wl' fl' gp' and s s' :: "'a Engine"
    assume "passing_ok n fl s" and "loopBody gen T (wl, fl, gp, s) = (wl', fl', gp', s')"
    then show "passing_ok n fl' s'" by (rule passing_ok_loopBody)
  qed
  then show ?thesis by (simp add: n_def)
qed

lemma pass_ends_loop:
  assumes ok: "collector_ok st" and run: "processTemperature gen f T st = Some res"
    and passed: "Passed \<in> set (drop (length (tests st)) (testStatuses (snd res)))"
  shows "fst res" and "temperatureLoop gen f (T # later) st = Some (snd res)"
proof -
  from passing_ok_processTemperature [OF ok run] passed show "fst res"
    by (simp add: passing_ok_def)
  with run show "temperatureLoop gen f (T # later) st = Some (snd res)"
    by (cases res) simp
qed

text \<open>
  Claim C3. Let the loop over the temperatures come to the temperature \<open>T\<close> in state
  \<open>s\<close>, with the temperatures \<open>later\<close> still to come. If a test recorded while \<open>T\<close> is
  processed has passed, then \<open>generatedPassingTests\<close> is set and the whole run ends in
  the state in which the processing of \<open>T\<close> ends: for the later temperatures no prompt
  is assembled, no request is made to the model, and nothing is recorded.
\<close>

theorem pass_skipping:
  assumes ok: "collector_ok st"
    and reached: "iterationStarts gen f Ts st T later s"
    and run: "processTemperature gen f T s = Some res"
    and passed: "Passed \<in> set (drop (length (tests s)) (testStatuses (snd res)))"
  shows "fst res \<and> temperatureLoop gen f Ts st = Some (snd res) \<and>
         (temperatures gen = Ts \<longrightarrow> generateAndValidateTests gen f st = Some (snd res))"
proof -
  from reached ok have "collector_ok s \<and>
      (temperatureLoop gen f (T # later) s = Some (snd res) \<longrightarrow>
       temperatureLoop gen f Ts st = Some (snd res))"
  proof (induction rule: iterationStarts.induct)
    case (first T Ts st)
    then show ?case by simp
  next
    case (later T0 st s0 Ts T later s)
    from collector_ok_processTemperature [OF later.hyps(1) later.prems]
    have "collector_ok s0" by simp
    with later.IH later.hyps(1) show ?case by simp
  qed
  then have oks: "collector_ok s"
    and up: "temperatureLoop gen f (T # later) s = Some (snd res) \<Longrightarrow>
             temperatureLoop gen f Ts st = Some (snd res)"
    by simp_all
  from pass_ends_loop(1) [OF oks run passed] have "fst res" .
  moreover from up pass_ends_loop(2) [OF oks run passed] have "temperatureLoop gen f Ts st = Some (snd res)" .
  ultimately show ?thesis by (simp add: generateAndValidateTests_def)
qed

theorem pass_skipping_witness:
  "collector_ok (emptyEngine ()) \<and>
   iterationStarts variedGenerator exFunction [0, 1, 2] (emptyEngine ()) 1 [2] afterFirstTemperature \<and>
   processTemperature variedGenerator exFunction 1 afterFirstTemperature \<noteq> None \<and>
   testStatuses afterFirstTemperature = [Pending] \<and>
   testStatuses (snd (the (processTemperature variedGenerator exFunction 1 afterFirstTemperature))) =
     [Pending, Passed] \<and>
   generateAndValidateTests variedGenerator exFunction (emptyEngine ()) =
     Some (snd (the (processTemperature variedGenerator exFunction 1 afterFirstTemperature)))"
proof -
  have ok: "collector_ok (emptyEngine ())" by (rule collector_ok_empty)
  have run0: "processTemperature variedGenerator exFunction 0 (emptyEngine ()) \<noteq> None"
    by code_simp
  have fl0: "fst (the (processTemperature variedGenerator exFunction 0 (emptyEngine ()))) = False"
    by code_simp
  from run0 fl0 have p0: "processTemperature variedGenerator exFunction 0 (emptyEngine ()) =
      Some (False, afterFirstTemperature)"
    by (auto simp: afterFirstTemperature_def)
  have reached: "iterationStarts variedGenerator exFunction [0, 1, 2] (emptyEngine ()) 1 [2]
      afterFirstTemperature"
    by (rule iterationStarts.later [OF p0 iterationStarts.first])
  have run1: "processTemperature variedGenerator exFunction 1 afterFirstTemperature \<noteq> None"
    by code_simp
  have st0: "testStatuses afterFirstTemperature = [Pending]"
    by code_simp
  have st1: "testStatuses (snd (the (processTemperature variedGenerator exFunction 1 afterFirstTemperature))) =
     [Pending, Passed]"
    by code_simp
  have "length (testStatuses afterFirstTemperature) = 1"
    using st0 by simp
  then have len: "length (tests afterFirstTemperature) = 1"
    by (simp add: testStatuses_def)
  from run1 obtain res where res: "processTemperature variedGenerator exFunction 1 afterFirstTemperature = Some res"
    by auto
  have "Passed \<in> set (drop (length (tests afterFirstTemperature)) (testStatuses (snd res)))"
    using st1 res len by simp
  from pass_skipping [OF ok reached res this] have
    "generateAndValidateTests variedGenerator exFunction (emptyEngine ()) = Some (snd res)"
    by (simp add: variedGenerator_def)
  with ok reached run1 st0 st1 res show ?thesis by simp
qed


subsection \<open>The loops return\<close>

lemma rank_withProvenance: "rank (withProvenance prs p) = rank p"
  by (simp add: rank_def withProvenance_def isRetryPrompt_def)

lemma map_nth_appended:
  "map (\<lambda>b. g ((h @ news) ! b)) [length h..<length h + length news] = map g news"
  by (rule nth_equalityI) (simp_all add: nth_append)

lemma worklistRanks_loopBody:
  assumes ok: "loop_ok gen f wl gp st" and ne: "wl \<noteq> []"
    and body: "loopBody gen T (wl, fl, gp, st) = (wl', fl', gp', st')"
  shows "(worklistRanks (wl', fl', gp', st'), worklistRanks (wl, fl, gp, st)) \<in> mult less_than"
proof -
  define a where "a = last wl"
  define h where "h = heap st"
  define text0 where "text0 = assemble (parses gen) (h ! a)"
  define common where "common = mset (map (\<lambda>b. rank (h ! b)) (butlast wl))"
  have "a \<in> set wl" using ne by (simp add: a_def)
  with ok have a: "a < length h" by (auto simp: loop_ok_def h_def)
  have bl: "\<forall>b\<in>set (butlast wl). b < length h"
    using ok by (auto simp: loop_ok_def h_def dest: in_set_butlastD)
  have wl: "wl = butlast wl @ [a]" using ne by (simp add: a_def)
  have before: "worklistRanks (wl, fl, gp, st) = common + {#rank (h ! a)#}"
    by (subst wl) (simp add: worklistRanks_def common_def h_def)
  show ?thesis
  proof (cases "map_of gp text0")
    case (Some prev)
    from loopBody_duplicate [OF Some [unfolded text0_def a_def h_def], of T fl] body
    have r: "wl' = butlast wl"
      "heap st' = h[prev := withProvenance (provenance (h ! a)) (h ! prev)]"
      by (simp_all add: a_def h_def)
    have same: "rank (h[prev := withProvenance (provenance (h ! a)) (h ! prev)] ! b) = rank (h ! b)"
      if "b < length h" for b
      using that by (cases "b = prev") (simp_all add: rank_withProvenance)
    have m: "map (\<lambda>b. rank (h[prev := withProvenance (provenance (h ! a)) (h ! prev)] ! b)) (butlast wl) =
          map (\<lambda>b. rank (h ! b)) (butlast wl)"
      by (rule map_cong) (simp_all add: same bl)
    have "worklistRanks (wl', fl', gp', st') = mset (map (\<lambda>b. rank (heap st' ! b)) wl')"
      by (simp add: worklistRanks_def)
    also have "\<dots> = common" unfolding r common_def by (simp only: m)
    finally have after: "worklistRanks (wl', fl', gp', st') = common + {#}" by simp
    show ?thesis unfolding before after
      by (rule one_step_implies_mult) simp_all
  next
    case None
    from loopBody_fresh [OF None [unfolded text0_def a_def h_def] a [unfolded a_def h_def] body]
    obtain news where r: "heap st' = h @ news"
      "wl' = butlast wl @ [length h..<length h + length news]"
      "\<forall>q\<in>set news. refinedFrom a (h ! a) q"
      by (auto simp: a_def h_def)
    have m: "map (\<lambda>b. rank ((h @ news) ! b)) (butlast wl) = map (\<lambda>b. rank (h ! b)) (butlast wl)"
      by (rule map_cong) (simp_all add: nth_append bl)
    have "worklistRanks (wl', fl', gp', st') = mset (map (\<lambda>b. rank (heap st' ! b)) wl')"
      by (simp add: worklistRanks_def)
    also have "\<dots> = mset (map (\<lambda>b. rank ((h @ news) ! b)) (butlast wl)) +
        mset (map (\<lambda>b. rank ((h @ news) ! b)) [length h..<length h + length news])"
      unfolding r by (simp only: map_append mset_append)
    also have "\<dots> = common + mset (map rank news)"
      unfolding common_def by (simp only: m map_nth_appended)
    finally have after: "worklistRanks (wl', fl', gp', st') = common + mset (map rank news)" .
    have "\<forall>k\<in>set_mset (mset (map rank news)). \<exists>j\<in>set_mset {#rank (h ! a)#}. (k, j) \<in> less_than"
      using r(3) refinedFrom_props(5) by auto
    then show ?thesis unfolding before after
      by (intro one_step_implies_mult) simp_all
  qed
qed

lemma worklistLoop_returns:
  assumes "loop_ok gen f wl gp st" and "prompts_ok st"
  shows "\<exists>res. worklistLoop gen T (wl, fl, gp, st) = Some res"
proof -
  have wf: "wf (inv_image (mult less_than) (worklistRanks :: 'a loopState \<Rightarrow> nat multiset))"
    by (intro wf_inv_image wf_mult wf_less_than)
  have "loop_ok gen f (fst ls) (fst (snd (snd ls))) (snd (snd (snd ls))) \<longrightarrow>
        prompts_ok (snd (snd (snd ls))) \<longrightarrow> (\<exists>res. worklistLoop gen T ls = Some res)"
    for ls :: "'a loopState"
  proof (induction ls rule: wf_induct_rule [OF wf])
    case (1 ls)
    obtain wl fl gp st where ls: "ls = (wl, fl, gp, st)" by (cases ls) auto
    show ?case
    proof (intro impI)
      assume ok: "loop_ok gen f (fst ls) (fst (snd (snd ls))) (snd (snd (snd ls)))"
        and pok: "prompts_ok (snd (snd (snd ls)))"
      show "\<exists>res. worklistLoop gen T ls = Some res"
      proof (cases "wl = []")
        case True
        then show ?thesis by (simp add: ls worklistLoop.simps)
      next
        case False
        obtain wl' fl' gp' st' where b: "loopBody gen T (wl, fl, gp, st) = (wl', fl', gp', st')"
          by (cases "loopBody gen T (wl, fl, gp, st)") auto
        from ok pok ls have ok': "loop_ok gen f wl gp st" "prompts_ok st" by simp_all
        from worklistRanks_loopBody [OF ok'(1) False b]
        have "((wl', fl', gp', st'), ls) \<in> inv_image (mult less_than) worklistRanks"
          by (simp add: ls)
        moreover from loop_ok_loopBody [OF ok' False b]
        have "loop_ok gen f wl' gp' st'" "prompts_ok st'" by simp_all
        ultimately have "\<exists>res. worklistLoop gen T (wl', fl', gp', st') = Some res"
          using "1.IH" [of "(wl', fl', gp', st')"] by simp
        moreover have "worklistLoop gen T ls = worklistLoop gen T (wl', fl', gp', st')"
          using False by (subst worklistLoop.simps) (simp add: ls b)
        ultimately show ?thesis by simp
      qed
    qed
  qed
  from this [of "(wl, fl, gp, st)"] assms show ?thesis by simp
qed

lemma prompts_ok_worklistLoop:
  assumes "loop_ok gen f wl gp st" and "prompts_ok st"
    and "worklistLoop gen T (wl, fl, gp, st) = Some res"
  shows "prompts_ok (snd res)"
proof -
  have "\<exists>gp'. loop_ok gen f [] gp' (snd res) \<and> prompts_ok (snd res)"
  proof (rule worklistLoop_invariant
      [where I = "\<lambda>wl (fl :: bool) gp s. loop_ok gen f wl gp s \<and> prompts_ok s", OF assms(3)])
    show "loop_ok gen f wl gp st \<and> prompts_ok st" using assms by simp
  next
    fix wl fl gp wl' fl' gp' and s s' :: "'a Engine"
    assume "loop_ok gen f wl gp s \<and> prompts_ok s" "wl \<noteq> []"
      "loopBody gen T (wl, fl, gp, s) = (wl', fl', gp', s')"
    then show "loop_ok gen f wl' gp' s' \<and> prompts_ok s'"
      using loop_ok_loopBody by blast
  qed
  then show ?thesis by simp
qed

lemma processTemperature_returns:
  assumes "prompts_ok st"
  shows "\<exists>res. processTemperature gen f T st = Some res \<and> prompts_ok (snd res)"
proof -
  define st0 where "st0 = st\<lparr>heap := heap st @ [newPrompt f
     (case snippetMap gen (functionName f) of Some sn \<Rightarrow> sn | None \<Rightarrow> []) defaultPromptOptions]\<rparr>"
  from enter_loop_ok [OF assms, of gen f]
  have ok: "loop_ok gen f [length (heap st)] [] st0" "prompts_ok st0" by (simp_all add: st0_def)
  from worklistLoop_returns [OF ok, of T False]
  obtain res where res: "worklistLoop gen T ([length (heap st)], False, [], st0) = Some res" by blast
  from prompts_ok_worklistLoop [OF ok res] res show ?thesis
    by (simp add: processTemperature_def Let_def st0_def)
qed

lemma temperatureLoop_returns:
  assumes "prompts_ok st"
  shows "\<exists>st'. temperatureLoop gen f Ts st = Some st' \<and> prompts_ok st'"
  using assms
proof (induction Ts arbitrary: st)
  case Nil
  then show ?case by simp
next
  case (Cons T Ts)
  from processTemperature_returns [OF Cons.prems, of gen f T]
  obtain fl s where p: "processTemperature gen f T st = Some (fl, s)" "prompts_ok s" by auto
  from Cons.IH [OF p(2)] p show ?case by (cases fl) simp_all
qed

lemma experimentLoop_returns:
  assumes "prompts_ok st"
  shows "\<exists>st'. experimentLoop gen now deadline reads fs st = Some st' \<and> prompts_ok st'"
  using assms
proof (induction fs arbitrary: st reads)
  case Nil
  then show ?case by simp
next
  case (Cons f fs)
  from temperatureLoop_returns [OF Cons.prems, of gen f "temperatures gen"]
  obtain s where g: "generateAndValidateTests gen f st = Some s" "prompts_ok s"
    by (auto simp: generateAndValidateTests_def)
  from Cons.IH [OF g(2), of "Suc reads"] g Cons.prems show ?case by simp
qed

text \<open>
  Every call of \<open>generateAndValidateTests\<close> and of \<open>runExperiment\<close> in a reachable state
  returns: each refiner lowers the rank of a prompt, so the multiset of the ranks on
  the worklist gets smaller with every prompt that is popped.
\<close>

theorem engine_returns:
  assumes "reachable gen st"
  shows "(\<exists>st'. generateAndValidateTests gen f st = Some st') \<and>
         (\<exists>st'. runExperiment fs gen now cov limit st = Some st')"
proof -
  from assms reachable_invariants [of gen st] have pok: "prompts_ok st" by simp
  from temperatureLoop_returns [OF pok, of gen f "temperatures gen"]
  have "\<exists>st'. generateAndValidateTests gen f st = Some st'"
    by (auto simp: generateAndValidateTests_def)
  moreover from experimentLoop_returns [OF pok, of gen now "now 0 + limit" 1 fs]
  have "\<exists>st'. runExperiment fs gen now cov limit st = Some st'"
    by (auto simp: runExperiment_def Let_def)
  ultimately show ?thesis by simp
qed

subsection \<open>The deadline\<close>

lemma experimentLoop_prefix:
  assumes "prompts_ok st" and "k \<le> length fs"
    and "\<forall>i<k. \<not> now (reads + i) > deadline"
    and "k < length fs \<longrightarrow> now (reads + k) > deadline"
  shows "\<exists>st'. generateForAll gen (take k fs) st = Some st' \<and>
           experimentLoop gen now deadline reads fs st = Some st'"
  using assms
proof (induction fs arbitrary: st k reads)
  case Nil
  then show ?case by simp
next
  case (Cons f fs)
  show ?case
  proof (cases k)
    case 0
    with Cons.prems show ?thesis by simp
  next
    case (Suc j)
    with Cons.prems(3) have now: "\<not> now reads > deadline" by force
    from temperatureLoop_returns [OF Cons.prems(1), of gen f "temperatures gen"]
    obtain s where g: "generateAndValidateTests gen f st = Some s" "prompts_ok s"
      by (auto simp: generateAndValidateTests_def)
    have j: "j \<le> length fs" using Cons.prems(2) Suc by simp
    have before: "\<forall>i<j. \<not> now (Suc reads + i) > deadline"
    proof (intro allI impI)
      fix i assume "i < j"
      then have "Suc i < k" using Suc by simp
      with Cons.prems(3) have "\<not> now (reads + Suc i) > deadline" by blast
      then show "\<not> now (Suc reads + i) > deadline" by simp
    qed
    have at: "j < length fs \<longrightarrow> now (Suc reads + j) > deadline"
      using Cons.prems(4) Suc by simp
    from Cons.IH [OF g(2) j before at] g now Suc show ?thesis by simp
  qed
qed

lemma experimentLoop_reads:
  assumes "\<forall>i<length fs. now' (reads + i) = now (reads + i)"
  shows "experimentLoop gen now' deadline reads fs st = experimentLoop gen now deadline reads fs st"
  using assms
proof (induction fs arbitrary: st reads)
  case Nil
  then show ?case by simp
next
  case (Cons f fs)
  from Cons.prems have here: "now' reads = now reads" by force
  have rest: "\<forall>i<length fs. now' (Suc reads + i) = now (Suc reads + i)"
  proof (intro allI impI)
    fix i assume "i < length fs"
    then have "Suc i < length (f # fs)" by simp
    with Cons.prems have "now' (reads + Suc i) = now (reads + Suc i)" by blast
    then show "now' (Suc reads + i) = now (Suc reads + i)" by simp
  qed
  from Cons.IH [OF rest] here show ?case by (simp split: option.splits)
qed

text \<open>
  Claim C6, amended. The deadline is the first read of the clock plus the time limit,
  and it is tested by \<open>runExperiment\<close> before each function is taken from its worklist,
  with a fresh read of the clock; \<open>generateAndValidateTests\<close> takes no clock and no
  deadline. When the test before the \<open>k\<close>-th function is the first that finds the
  deadline passed, the run is the one that hands the first \<open>k\<close> functions to
  \<open>generateAndValidateTests\<close> and then records the coverage summary: the functions left
  are dropped and the collector is as the \<open>k\<close> functions left it, all tests and prompts
  in it. When no test finds the deadline passed, all functions are handed over. The
  run returns, and it reads the clock once for the deadline and at most once for each
  function: what the clock gives later has no effect.
\<close>

theorem deadline_checked_per_function:
  assumes "prompts_ok st" and "k \<le> length fs"
    and "\<forall>i<k. \<not> expired now timeLimit i"
    and "k < length fs \<longrightarrow> expired now timeLimit k"
  shows "(\<exists>st'. generateForAll gen (take k fs) st = Some st' \<and>
            runExperiment fs gen now cov timeLimit st =
              Some (recordCoverageInfo (cov (validatorLog st')) st') \<and>
            tests (recordCoverageInfo (cov (validatorLog st')) st') = tests st' \<and>
            prompts (recordCoverageInfo (cov (validatorLog st')) st') = prompts st' \<and>
            heap (recordCoverageInfo (cov (validatorLog st')) st') = heap st') \<and>
         ((\<forall>i\<le>length fs. now' i = now i) \<longrightarrow>
            runExperiment fs gen now' cov timeLimit st =
              runExperiment fs gen now cov timeLimit st)"
proof (intro conjI impI)
  have before: "\<forall>i<k. \<not> now (1 + i) > now 0 + timeLimit"
    using assms(3) by (simp add: expired_def)
  have at: "k < length fs \<longrightarrow> now (1 + k) > now 0 + timeLimit"
    using assms(4) by (simp add: expired_def)
  from experimentLoop_prefix [OF assms(1,2) before at, of gen]
  obtain st' where "generateForAll gen (take k fs) st = Some st'"
    "experimentLoop gen now (now 0 + timeLimit) 1 fs st = Some st'" by blast
  then show "\<exists>st'. generateForAll gen (take k fs) st = Some st' \<and>
            runExperiment fs gen now cov timeLimit st =
              Some (recordCoverageInfo (cov (validatorLog st')) st') \<and>
            tests (recordCoverageInfo (cov (validatorLog st')) st') = tests st' \<and>
            prompts (recordCoverageInfo (cov (validatorLog st')) st') = prompts st' \<and>
            heap (recordCoverageInfo (cov (validatorLog st')) st') = heap st'"
    by (simp add: runExperiment_def Let_def recordCoverageInfo_def)
next
  assume same: "\<forall>i\<le>length fs. now' i = now i"
  then have "\<forall>i<length fs. now' (1 + i) = now (1 + i)" by simp
  from experimentLoop_reads [OF this, of gen "now 0 + timeLimit" st] same
  show "runExperiment fs gen now' cov timeLimit st =
          runExperiment fs gen now cov timeLimit st"
    by (simp add: runExperiment_def Let_def)
qed

theorem deadline_checked_per_function_witness:
  "prompts_ok (emptyEngine ()) \<and> \<not> expired tickingClock 1 0 \<and> expired tickingClock 1 1 \<and>
   generateForAll failingGenerator [exFunction] (emptyEngine ()) \<noteq> None \<and>
   runExperiment [exFunction, exFunction] failingGenerator tickingClock noCoverage 1 (emptyEngine ()) =
     generateForAll failingGenerator [exFunction] (emptyEngine ()) \<and>
   expired jumpingClock 3 0 \<and>
   runExperiment [exFunction] failingGenerator jumpingClock noCoverage 3 (emptyEngine ()) =
     Some (emptyEngine ())"
proof -
  have pok: "prompts_ok (emptyEngine ())" by (simp add: prompts_ok_def emptyEngine_def)
  have t: "\<not> expired tickingClock 1 0" "expired tickingClock 1 1"
    by (simp_all add: expired_def tickingClock_def)
  have j: "expired jumpingClock 3 0" by (simp add: expired_def jumpingClock_def)
  have u: "recordCoverageInfo (noCoverage v) s = s" for v and s :: "unit Engine"
    by (simp add: recordCoverageInfo_def)
  have t1: "(1 :: nat) \<le> length [exFunction, exFunction]" by simp
  have t2: "\<forall>i<1. \<not> expired tickingClock 1 i" using t(1) by simp
  have t3: "1 < length [exFunction, exFunction] \<longrightarrow> expired tickingClock 1 1" using t(2) by simp
  have t4: "take 1 [exFunction, exFunction] = [exFunction]" by simp
  from deadline_checked_per_function [OF pok t1 t2 t3, of failingGenerator noCoverage]
  obtain s where "generateForAll failingGenerator (take 1 [exFunction, exFunction]) (emptyEngine ()) = Some s"
    "runExperiment [exFunction, exFunction] failingGenerator tickingClock noCoverage 1 (emptyEngine ()) =
       Some (recordCoverageInfo (noCoverage (validatorLog s)) s)"
    by blast
  then have a: "generateForAll failingGenerator [exFunction] (emptyEngine ()) \<noteq> None"
    "runExperiment [exFunction, exFunction] failingGenerator tickingClock noCoverage 1 (emptyEngine ()) =
     generateForAll failingGenerator [exFunction] (emptyEngine ())"
    unfolding t4 u by simp_all
  have j1: "(0 :: nat) \<le> length [exFunction]" by simp
  have j2: "\<forall>i<0. \<not> expired jumpingClock 3 i" by simp
  have j3: "0 < length [exFunction] \<longrightarrow> expired jumpingClock 3 0" using j by simp
  have j4: "generateForAll failingGenerator (take 0 [exFunction]) (emptyEngine ()) = Some (emptyEngine ())"
    by simp
  from deadline_checked_per_function [OF pok j1 j2 j3, of failingGenerator noCoverage]
  obtain s' where "generateForAll failingGenerator (take 0 [exFunction]) (emptyEngine ()) = Some s'"
    "runExperiment [exFunction] failingGenerator jumpingClock noCoverage 3 (emptyEngine ()) =
       Some (recordCoverageInfo (noCoverage (validatorLog s')) s')"
    by blast
  then have b: "runExperiment [exFunction] failingGenerator jumpingClock noCoverage 3 (emptyEngine ()) =
     Some (emptyEngine ())"
    unfolding j4 u by simp
  from pok t j a b show ?thesis by simp
qed

end
